theory Spec2Isabelle
  imports Main "HOL-Library.Sublist"
begin

section \<open>Data model\<close>

text \<open>
  The solver works on Go values of type \<open>uint\<close> (candidates, digits, positions),
  \<open>int\<close> (loop indices) and \<open>uint64\<close> (sums of candidate counts). They are modelled as
  \<open>nat\<close>. No operation of the engine subtracts below zero; the sums add at most one list
  length per candidate and the sieve indices stay below twice the length of its table, so
  for every slice that fits in memory the 64-bit range is not left and wrap-around never
  takes place.

  \<open>type feedbackType uint\<close> with the three constants declared by \<open>iota\<close>; other
  values of the type exist and take the \<open>default\<close> branch of the filter.
\<close>

type_synonym feedbackType = nat

definition feedbackTypeAbsent :: feedbackType where
  "feedbackTypeAbsent = 0"

definition feedbackTypePresent :: feedbackType where
  "feedbackTypePresent = 1"

definition feedbackTypeCorrect :: feedbackType where
  "feedbackTypeCorrect = 2"

record feedback =
  digit :: nat
  feedbackType :: feedbackType

text \<open>The zero value of the struct, which \<open>make([]feedback, n)\<close> stores in every cell.\<close>

definition zeroFeedback :: feedback where
  "zeroFeedback = \<lparr>digit = 0, feedbackType = 0\<rparr>"

text \<open>
  The ways a call can fail: the explicit \<open>panic\<close> of \<open>getFeedbackPerDigit\<close>, the run-time
  panic of an index outside a slice, the \<open>os.Exit(2)\<close> of the filter's \<open>default\<close>
  branch, and the \<open>os.Exit(1)\<close> of \<open>main\<close> when no candidate is left.
\<close>

datatype error = LengthMismatch | IndexOutOfRange | UnknownFeedbackType | NoMoreCandidates

section \<open>Digit codec: \<open>getDigits\<close>\<close>

text \<open>
  \<open>for i := 0; i < int(numberOfDigits); i++ { result = append(result, num%10); num /= 10 }\<close>.
  The first argument of the loop counts the iterations that remain; every call in the
  program passes the count 5, for which the conversion to \<open>int\<close> is exact.
\<close>

fun getDigitsLoop :: "nat \<Rightarrow> nat \<Rightarrow> nat list \<Rightarrow> nat list" where
  "getDigitsLoop 0 num result = result"
| "getDigitsLoop (Suc k) num result = getDigitsLoop k (num div 10) (result @ [num mod 10])"

definition getDigits :: "nat \<Rightarrow> nat \<Rightarrow> nat list" where
  "getDigits num numberOfDigits = getDigitsLoop numberOfDigits num []"

text \<open>Reading a slice at an index, with Go's bounds check.\<close>

definition index :: "'a list \<Rightarrow> nat \<Rightarrow> error + 'a" where
  "index xs i = (if i < length xs then Inr (xs ! i) else Inl IndexOutOfRange)"

text \<open>
  Horner reconstruction of a number from its digits in the order \<open>getDigits\<close> produces
  them (units first).
\<close>

fun horner :: "nat list \<Rightarrow> nat" where
  "horner [] = 0"
| "horner (d # ds) = d + 10 * horner ds"

section \<open>Slice helpers: \<open>filter\<close> and \<open>contains\<close>\<close>

text \<open>
  \<open>filter\<close> appends to \<open>newSlice\<close> the elements the predicate accepts, in order. The
  predicate is a Go closure that may panic, so it returns a sum; a panic ends the loop.
\<close>

fun filterLoop :: "nat list \<Rightarrow> (nat \<Rightarrow> error + bool) \<Rightarrow> nat list \<Rightarrow> error + nat list" where
  "filterLoop [] predicate newSlice = Inr newSlice"
| "filterLoop (x # xs) predicate newSlice =
     (case predicate x of
        Inl e \<Rightarrow> Inl e
      | Inr b \<Rightarrow> filterLoop xs predicate (if b then newSlice @ [x] else newSlice))"

definition filter_slice :: "nat list \<Rightarrow> (nat \<Rightarrow> error + bool) \<Rightarrow> error + nat list" where
  "filter_slice slice predicate = filterLoop slice predicate []"

fun contains :: "nat list \<Rightarrow> nat \<Rightarrow> bool" where
  "contains [] elem = False"
| "contains (x # xs) elem = (if x = elem then True else contains xs elem)"

section \<open>Feedback evaluator: \<open>getFeedbackPerDigit\<close>\<close>

text \<open>
  First loop: \<open>if guessDigits[i] == possibleSolutionDigits[i]\<close> store a Correct entry.
\<close>

function correctLoop :: "nat list \<Rightarrow> nat list \<Rightarrow> nat \<Rightarrow> feedback list \<Rightarrow> feedback list" where
  "correctLoop guessDigits possibleSolutionDigits i feedbackPerDigit =
     (if i < length guessDigits then
        correctLoop guessDigits possibleSolutionDigits (i + 1)
          (if guessDigits ! i = possibleSolutionDigits ! i
           then feedbackPerDigit[i := \<lparr>digit = guessDigits ! i, feedbackType = feedbackTypeCorrect\<rparr>]
           else feedbackPerDigit)
      else feedbackPerDigit)"
  by pat_completeness auto
termination
  by (relation "measure (\<lambda>(g, s, i, fb). length g - i)") auto

declare correctLoop.simps [simp del]

text \<open>
  The inner loop over \<open>j\<close> of the second pass, for a fixed \<open>i\<close>: \<open>continue\<close> on a
  Correct entry, \<open>break\<close> with Present on a match, and the Absent entry is written only in
  the iteration \<open>j == len(possibleSolutionDigits)-1\<close>, when that iteration reaches the
  last \<open>else if\<close>.
\<close>

function scanSolution :: "nat list \<Rightarrow> nat list \<Rightarrow> nat \<Rightarrow> nat \<Rightarrow> feedback list \<Rightarrow> feedback list" where
  "scanSolution guessDigits possibleSolutionDigits i j feedbackPerDigit =
     (if j < length possibleSolutionDigits then
        (if feedbackType (feedbackPerDigit ! j) = feedbackTypeCorrect then
           scanSolution guessDigits possibleSolutionDigits i (j + 1) feedbackPerDigit
         else if possibleSolutionDigits ! j = guessDigits ! i then
           feedbackPerDigit[i := \<lparr>digit = guessDigits ! i, feedbackType = feedbackTypePresent\<rparr>]
         else if j = length possibleSolutionDigits - 1 then
           scanSolution guessDigits possibleSolutionDigits i (j + 1)
             (feedbackPerDigit[i := \<lparr>digit = guessDigits ! i, feedbackType = feedbackTypeAbsent\<rparr>])
         else scanSolution guessDigits possibleSolutionDigits i (j + 1) feedbackPerDigit)
      else feedbackPerDigit)"
  by pat_completeness auto
termination
  by (relation "measure (\<lambda>(g, s, i, j, fb). length s - j)") auto

declare scanSolution.simps [simp del]

function presentAbsentLoop :: "nat list \<Rightarrow> nat list \<Rightarrow> nat \<Rightarrow> feedback list \<Rightarrow> feedback list" where
  "presentAbsentLoop guessDigits possibleSolutionDigits i feedbackPerDigit =
     (if i < length guessDigits then
        (if feedbackType (feedbackPerDigit ! i) = feedbackTypeCorrect then
           presentAbsentLoop guessDigits possibleSolutionDigits (i + 1) feedbackPerDigit
         else presentAbsentLoop guessDigits possibleSolutionDigits (i + 1)
                (scanSolution guessDigits possibleSolutionDigits i 0 feedbackPerDigit))
      else feedbackPerDigit)"
  by pat_completeness auto
termination
  by (relation "measure (\<lambda>(g, s, i, fb). length g - i)") auto

declare presentAbsentLoop.simps [simp del]

definition getFeedbackPerDigit :: "nat list \<Rightarrow> nat list \<Rightarrow> error + feedback list" where
  "getFeedbackPerDigit guessDigits possibleSolutionDigits =
     (if length guessDigits \<noteq> length possibleSolutionDigits then Inl LengthMismatch
      else Inr (presentAbsentLoop guessDigits possibleSolutionDigits 0
                 (correctLoop guessDigits possibleSolutionDigits 0
                   (replicate (length guessDigits) zeroFeedback))))"

section \<open>Candidate filter: \<open>incorporateFeedback\<close>\<close>

text \<open>
  The closures handed to \<open>filter\<close>. The one of the first loop reads
  \<open>getDigits(candidate, 5)[i]\<close>, which panics when \<open>i\<close> is not below 5. The two of the
  second loop range over the digits with their index and cannot fail.
\<close>

definition correctPredicate :: "nat \<Rightarrow> nat \<Rightarrow> nat \<Rightarrow> error + bool" where
  "correctPredicate i d candidate =
     (case index (getDigits candidate 5) i of
        Inl e \<Rightarrow> Inl e
      | Inr x \<Rightarrow> Inr (x = d))"

fun presentScan :: "nat list \<Rightarrow> nat \<Rightarrow> nat \<Rightarrow> nat \<Rightarrow> nat list \<Rightarrow> bool" where
  "presentScan [] idx d i correctPositions = False"
| "presentScan (x # xs) idx d i correctPositions =
     (if x = d \<and> idx \<noteq> i \<and> \<not> contains correctPositions idx then True
      else presentScan xs (idx + 1) d i correctPositions)"

fun absentScan :: "nat list \<Rightarrow> nat \<Rightarrow> nat \<Rightarrow> nat list \<Rightarrow> bool" where
  "absentScan [] idx d correctPositions = True"
| "absentScan (x # xs) idx d correctPositions =
     (if x = d \<and> \<not> contains correctPositions idx then False
      else absentScan xs (idx + 1) d correctPositions)"

definition presentPredicate :: "nat \<Rightarrow> nat \<Rightarrow> nat list \<Rightarrow> nat \<Rightarrow> error + bool" where
  "presentPredicate i d correctPositions candidate =
     Inr (presentScan (getDigits candidate 5) 0 d i correctPositions)"

definition absentPredicate :: "nat \<Rightarrow> nat list \<Rightarrow> nat \<Rightarrow> error + bool" where
  "absentPredicate d correctPositions candidate =
     Inr (absentScan (getDigits candidate 5) 0 d correctPositions)"

text \<open>
  First loop of \<open>incorporateFeedback\<close>; the list argument is the part of
  \<open>feedbackPerDigit\<close> from index \<open>i\<close> on. It returns the candidates kept and the
  Correct positions collected.
\<close>

fun correctPass :: "feedback list \<Rightarrow> nat \<Rightarrow> nat list \<Rightarrow> nat list \<Rightarrow> error + (nat list \<times> nat list)" where
  "correctPass [] i newCandidates correctPositions = Inr (newCandidates, correctPositions)"
| "correctPass (f # fs) i newCandidates correctPositions =
     (if feedbackType f = feedbackTypeCorrect then
        (case filter_slice newCandidates (correctPredicate i (digit f)) of
           Inl e \<Rightarrow> Inl e
         | Inr kept \<Rightarrow> correctPass fs (i + 1) kept (correctPositions @ [i]))
      else correctPass fs (i + 1) newCandidates correctPositions)"

text \<open>Second loop: the \<open>switch\<close> on the feedback type, in the order of its cases.\<close>

fun switchPass :: "feedback list \<Rightarrow> nat \<Rightarrow> nat list \<Rightarrow> nat list \<Rightarrow> error + nat list" where
  "switchPass [] i correctPositions newCandidates = Inr newCandidates"
| "switchPass (f # fs) i correctPositions newCandidates =
     (if feedbackType f = feedbackTypeCorrect then
        switchPass fs (i + 1) correctPositions newCandidates
      else if feedbackType f = feedbackTypePresent then
        (case filter_slice newCandidates (presentPredicate i (digit f) correctPositions) of
           Inl e \<Rightarrow> Inl e
         | Inr kept \<Rightarrow> switchPass fs (i + 1) correctPositions kept)
      else if feedbackType f = feedbackTypeAbsent then
        (case filter_slice newCandidates (absentPredicate (digit f) correctPositions) of
           Inl e \<Rightarrow> Inl e
         | Inr kept \<Rightarrow> switchPass fs (i + 1) correctPositions kept)
      else Inl UnknownFeedbackType)"

definition incorporateFeedback :: "feedback list \<Rightarrow> nat list \<Rightarrow> error + nat list" where
  "incorporateFeedback feedbackPerDigit candidates =
     (case correctPass feedbackPerDigit 0 candidates [] of
        Inl e \<Rightarrow> Inl e
      | Inr (newCandidates, correctPositions) \<Rightarrow>
          switchPass feedbackPerDigit 0 correctPositions newCandidates)"

section \<open>Prime generator: \<open>sieve\<close> and \<open>getPrimes\<close>\<close>

text \<open>
  \<open>for j := (i+2)*2 - 2; j < len(candidates); j += i + 2 { candidates[j] = false }\<close>
\<close>

function markMultiples :: "nat \<Rightarrow> nat \<Rightarrow> bool list \<Rightarrow> bool list" where
  "markMultiples i j candidates =
     (if j < length candidates
      then markMultiples i (j + (i + 2)) (candidates[j := False])
      else candidates)"
  by pat_completeness auto
termination
  by (relation "measure (\<lambda>(i, j, candidates). length candidates - j)") auto

declare markMultiples.simps [simp del]

function sieveLoop :: "nat \<Rightarrow> bool list \<Rightarrow> nat list \<Rightarrow> nat list" where
  "sieveLoop i candidates primes =
     (if i < length candidates then
        (if candidates ! i
         then sieveLoop (i + 1) (markMultiples i ((i + 2) * 2 - 2) candidates) (primes @ [i + 2])
         else sieveLoop (i + 1) candidates primes)
      else primes)"
  by pat_completeness auto
termination
proof (relation "measure (\<lambda>(i, candidates, primes). length candidates - i)")
  have len: "length (markMultiples i j cs) = length cs" for i j cs
  proof (induction i j cs rule: markMultiples.induct)
    case (1 i j candidates)
    show ?case
    proof (cases "j < length candidates")
      case True
      then show ?thesis
        using "1.IH" by (subst markMultiples.simps) simp
    next
      case False
      then show ?thesis
        by (subst markMultiples.simps) simp
    qed
  qed
  show "wf (measure (\<lambda>(i, candidates, primes). length candidates - i))"
    by simp
  show "((i + 1, markMultiples i ((i + 2) * 2 - 2) candidates, primes @ [i + 2]), i, candidates, primes)
          \<in> measure (\<lambda>(i, candidates, primes). length candidates - i)"
    if "i < length candidates" for i candidates and primes :: "nat list"
    using that by (simp add: len)
  show "((i + 1, candidates, primes), i, candidates, primes)
          \<in> measure (\<lambda>(i, candidates, primes). length candidates - i)"
    if "i < length candidates" for i and candidates :: "bool list" and primes :: "nat list"
    using that by simp
qed

declare sieveLoop.simps [simp del]

text \<open>
  \<open>make([]bool, max-2)\<close> followed by the loop that sets every cell to \<open>true\<close> is
  \<open>replicate (maxv - 2) True\<close> (\<open>maxv\<close> is the parameter \<open>max\<close> of the source); the
  cell at index \<open>i\<close> stands for the number \<open>i + 2\<close>.
\<close>

definition sieve :: "nat \<Rightarrow> nat list" where
  "sieve maxv = (if maxv < 2 then [] else sieveLoop 0 (replicate (maxv - 2) True) [])"

fun getPrimesLoop :: "nat list \<Rightarrow> nat \<Rightarrow> nat list \<Rightarrow> nat list" where
  "getPrimesLoop [] from result = result"
| "getPrimesLoop (p # ps) from result =
     getPrimesLoop ps from (if p \<ge> from then result @ [p] else result)"

definition getPrimes :: "nat \<Rightarrow> nat \<Rightarrow> nat list" where
  "getPrimes from to = getPrimesLoop (sieve to) from []"

section \<open>Guess selection, simulation variant (\<open>main.go\<close>)\<close>

text \<open>
  \<open>evaluateGuess\<close> starts one goroutine per candidate; each one computes the feedback
  of the guess against that candidate, filters a private copy of the candidate list and
  adds the number of survivors to a shared counter with \<open>atomic.AddUint64\<close>. The
  function returns after \<open>wg.Wait()\<close>. The goroutines share nothing else that is written
  and addition is commutative, so the result is the sum taken in list order; a panic in
  any goroutine ends the program.
\<close>

fun evaluateGuessLoop_sim :: "nat \<Rightarrow> nat list \<Rightarrow> nat list \<Rightarrow> nat \<Rightarrow> error + nat" where
  "evaluateGuessLoop_sim guess [] candidates remainingCandidatesAfterGuess =
     Inr remainingCandidatesAfterGuess"
| "evaluateGuessLoop_sim guess (possibleSolution # rest) candidates remainingCandidatesAfterGuess =
     (case getFeedbackPerDigit (getDigits guess 5) (getDigits possibleSolution 5) of
        Inl e \<Rightarrow> Inl e
      | Inr feedbackPerDigit \<Rightarrow>
          (case incorporateFeedback feedbackPerDigit candidates of
             Inl e \<Rightarrow> Inl e
           | Inr newCandidates \<Rightarrow>
               evaluateGuessLoop_sim guess rest candidates
                 (remainingCandidatesAfterGuess + length newCandidates)))"

definition evaluateGuess_sim :: "nat \<Rightarrow> nat list \<Rightarrow> error + nat" where
  "evaluateGuess_sim guess candidates = evaluateGuessLoop_sim guess candidates candidates 0"

text \<open>
  The loop of \<open>findBestGuess\<close> in \<open>main.go\<close>: \<open>bestGuessValue\<close> is declared, compared
  against and never assigned, so it is passed along unchanged.
\<close>

fun findBestGuessLoop_sim :: "nat list \<Rightarrow> nat list \<Rightarrow> nat \<Rightarrow> nat \<Rightarrow> error + nat" where
  "findBestGuessLoop_sim [] candidates bestGuess bestGuessValue = Inr bestGuess"
| "findBestGuessLoop_sim (candidateGuess # rest) candidates bestGuess bestGuessValue =
     (case evaluateGuess_sim candidateGuess candidates of
        Inl e \<Rightarrow> Inl e
      | Inr guessValue \<Rightarrow>
          findBestGuessLoop_sim rest candidates
            (if guessValue > bestGuessValue then candidateGuess else bestGuess) bestGuessValue)"

definition findBestGuess_sim :: "nat list \<Rightarrow> error + nat" where
  "findBestGuess_sim candidates = findBestGuessLoop_sim candidates candidates 0 0"

text \<open>
  The statements of the loop of \<open>main\<close> that follow the filter:
  \<open>if len(candidates) == 0 { ...; os.Exit(1) }\<close> and then
  \<open>bestGuess = findBestGuess(candidates)\<close>.
\<close>

definition nextGuess_sim :: "nat list \<Rightarrow> error + nat" where
  "nextGuess_sim candidates =
     (if length candidates = 0 then Inl NoMoreCandidates else findBestGuess_sim candidates)"

section \<open>Guess selection, frequency variant (\<open>unnamed/part_000\<close>)\<close>

text \<open>
  A \<open>map[uint]uint\<close> is a partial map; reading a key that is absent gives the zero value.
\<close>

type_synonym freqMap = "nat \<rightharpoonup> nat"

definition lookupFreq :: "freqMap \<Rightarrow> nat \<Rightarrow> nat" where
  "lookupFreq m k = (case m k of None \<Rightarrow> 0 | Some v \<Rightarrow> v)"

text \<open>
  \<open>for j := 0; j < len(digits); j++ { result[j][digits[j]]++ }\<close>. Both \<open>result\<close> and
  \<open>digits\<close> have \<open>numberOfDigits\<close> entries, so \<open>result[j]\<close> is always in range.
\<close>

fun countDigits :: "nat list \<Rightarrow> nat \<Rightarrow> freqMap list \<Rightarrow> freqMap list" where
  "countDigits [] j result = result"
| "countDigits (d # ds) j result =
     countDigits ds (j + 1) (result[j := (result ! j)(d \<mapsto> lookupFreq (result ! j) d + 1)])"

fun countNumbers :: "nat list \<Rightarrow> nat \<Rightarrow> freqMap list \<Rightarrow> freqMap list" where
  "countNumbers [] numberOfDigits result = result"
| "countNumbers (n # ns) numberOfDigits result =
     countNumbers ns numberOfDigits (countDigits (getDigits n numberOfDigits) 0 result)"

definition findDigitFrequencyPerPosition :: "nat list \<Rightarrow> nat \<Rightarrow> freqMap list" where
  "findDigitFrequencyPerPosition numbers numberOfDigits =
     countNumbers numbers numberOfDigits (replicate numberOfDigits Map.empty)"

text \<open>
  \<open>result += digitFrequencyPerPosition[i][digits[i]]\<close>: the outer index panics when the
  table has fewer than five entries.
\<close>

fun evaluateGuessLoop_freq :: "nat list \<Rightarrow> nat \<Rightarrow> freqMap list \<Rightarrow> nat \<Rightarrow> error + nat" where
  "evaluateGuessLoop_freq [] i digitFrequencyPerPosition result = Inr result"
| "evaluateGuessLoop_freq (d # ds) i digitFrequencyPerPosition result =
     (case index digitFrequencyPerPosition i of
        Inl e \<Rightarrow> Inl e
      | Inr m \<Rightarrow> evaluateGuessLoop_freq ds (i + 1) digitFrequencyPerPosition (result + lookupFreq m d))"

definition evaluateGuess_freq :: "nat \<Rightarrow> freqMap list \<Rightarrow> error + nat" where
  "evaluateGuess_freq guess digitFrequencyPerPosition =
     evaluateGuessLoop_freq (getDigits guess 5) 0 digitFrequencyPerPosition 0"

fun findBestGuessLoop_freq :: "nat list \<Rightarrow> freqMap list \<Rightarrow> nat \<Rightarrow> nat \<Rightarrow> error + nat" where
  "findBestGuessLoop_freq [] digitFrequencyPerPosition bestGuess bestGuessValue = Inr bestGuess"
| "findBestGuessLoop_freq (guess # rest) digitFrequencyPerPosition bestGuess bestGuessValue =
     (case evaluateGuess_freq guess digitFrequencyPerPosition of
        Inl e \<Rightarrow> Inl e
      | Inr guessValue \<Rightarrow>
          (if guessValue > bestGuessValue
           then findBestGuessLoop_freq rest digitFrequencyPerPosition guess guessValue
           else findBestGuessLoop_freq rest digitFrequencyPerPosition bestGuess bestGuessValue))"

text \<open>\<open>bestGuess := candidates[0]\<close> panics on an empty slice; the loop starts at index 1.\<close>

fun findBestGuess_freq :: "nat list \<Rightarrow> freqMap list \<Rightarrow> error + nat" where
  "findBestGuess_freq [] digitFrequencyPerPosition = Inl IndexOutOfRange"
| "findBestGuess_freq (bestGuess # rest) digitFrequencyPerPosition =
     (case evaluateGuess_freq bestGuess digitFrequencyPerPosition of
        Inl e \<Rightarrow> Inl e
      | Inr bestGuessValue \<Rightarrow>
          findBestGuessLoop_freq rest digitFrequencyPerPosition bestGuess bestGuessValue)"

text \<open>
  The selector of the frequency variant as \<open>main\<close> calls it: the table is the one computed
  from the same candidate list with five digits.
\<close>

definition selectBestGuess_freq :: "nat list \<Rightarrow> error + nat" where
  "selectBestGuess_freq candidates =
     findBestGuess_freq candidates (findDigitFrequencyPerPosition candidates 5)"

text \<open>
  The same statements of \<open>main\<close> in the frequency variant; the table is computed before
  the length is tested.
\<close>

definition nextGuess_freq :: "nat list \<Rightarrow> error + nat" where
  "nextGuess_freq candidates =
     (let digitFrequencyPerPosition = findDigitFrequencyPerPosition candidates 5
      in if length candidates = 0 then Inl NoMoreCandidates
         else findBestGuess_freq candidates digitFrequencyPerPosition)"

section \<open>Specification vocabulary\<close>

text \<open>Primality, stated by divisors.\<close>

definition is_prime :: "nat \<Rightarrow> bool" where
  "is_prime p = (1 < p \<and> (\<forall>d. d dvd p \<longrightarrow> d = 1 \<or> d = p))"

text \<open>The Correct positions of a feedback report.\<close>

definition isCorrectPosition :: "feedback list \<Rightarrow> nat \<Rightarrow> bool" where
  "isCorrectPosition fb j = (j < length fb \<and> feedbackType (fb ! j) = feedbackTypeCorrect)"

text \<open>
  A report is well formed for the filter when every kind is one of the three constants and
  every Correct entry sits at one of the five digit positions of a candidate.
\<close>

definition knownKinds :: "feedback list \<Rightarrow> bool" where
  "knownKinds fb =
     list_all (\<lambda>f. feedbackType f = feedbackTypeCorrect \<or> feedbackType f = feedbackTypePresent
                   \<or> feedbackType f = feedbackTypeAbsent) fb"

definition correctWithinDigits :: "feedback list \<Rightarrow> bool" where
  "correctWithinDigits fb = list_all (\<lambda>j. j < 5) (filter (isCorrectPosition fb) [0..<length fb])"

text \<open>
  The three conditions of the Candidate Filter on one candidate \<open>c\<close>, in the words of the
  specification.
\<close>

definition consistent :: "feedback list \<Rightarrow> nat \<Rightarrow> bool" where
  "consistent fb c =
     (\<forall>i<length fb.
        (feedbackType (fb ! i) = feedbackTypeCorrect \<longrightarrow> getDigits c 5 ! i = digit (fb ! i))
      \<and> (feedbackType (fb ! i) = feedbackTypePresent \<longrightarrow>
           (\<exists>j<5. j \<noteq> i \<and> \<not> isCorrectPosition fb j \<and> getDigits c 5 ! j = digit (fb ! i)))
      \<and> (feedbackType (fb ! i) = feedbackTypeAbsent \<longrightarrow>
           (\<forall>j<5. \<not> isCorrectPosition fb j \<longrightarrow> getDigits c 5 ! j \<noteq> digit (fb ! i))))"

text \<open>
  The score of the frequency heuristic in the words of the specification: for each of the
  five positions, the number of candidates that have the guess's digit there.
\<close>

definition freqScore :: "nat list \<Rightarrow> nat \<Rightarrow> nat" where
  "freqScore candidates g =
     (\<Sum>i<5. length (filter (\<lambda>c. getDigits c 5 ! i = getDigits g 5 ! i) candidates))"

text \<open>
  The score of the simulation heuristic in the words of the specification: the sum, over
  every candidate taken as the solution, of the number of candidates left by the filter.
\<close>

definition simScore :: "nat list \<Rightarrow> nat \<Rightarrow> nat" where
  "simScore candidates g =
     (\<Sum>s\<leftarrow>candidates.
        (case getFeedbackPerDigit (getDigits g 5) (getDigits s 5) of
           Inl e \<Rightarrow> 0
         | Inr fb \<Rightarrow> (case incorporateFeedback fb candidates of Inl e \<Rightarrow> 0 | Inr r \<Rightarrow> length r)))"

text \<open>
  The entry the evaluator stores at position \<open>i\<close>, read off the two passes: Correct on
  equal digits; otherwise Present when some position whose digits differ holds the guess
  digit in the solution; otherwise the Absent entry, which is written only when the last
  position is not Correct, and else the cell keeps its zero value.
\<close>

definition feedbackAt :: "nat list \<Rightarrow> nat list \<Rightarrow> nat \<Rightarrow> feedback" where
  "feedbackAt g s i =
     (if g ! i = s ! i then \<lparr>digit = g ! i, feedbackType = feedbackTypeCorrect\<rparr>
      else if \<exists>j<length s. g ! j \<noteq> s ! j \<and> s ! j = g ! i
      then \<lparr>digit = g ! i, feedbackType = feedbackTypePresent\<rparr>
      else if g ! (length s - 1) \<noteq> s ! (length s - 1)
      then \<lparr>digit = g ! i, feedbackType = feedbackTypeAbsent\<rparr>
      else zeroFeedback)"

text \<open>
  The entry the inner loop of the second pass leaves at position \<open>i\<close> of the table
  \<open>fb\<close>.
\<close>

definition scanResult :: "nat list \<Rightarrow> nat list \<Rightarrow> feedback list \<Rightarrow> nat \<Rightarrow> feedback" where
  "scanResult g s fb i =
     (if \<exists>j<length s. feedbackType (fb ! j) \<noteq> feedbackTypeCorrect \<and> s ! j = g ! i
      then \<lparr>digit = g ! i, feedbackType = feedbackTypePresent\<rparr>
      else if feedbackType (fb ! (length s - 1)) \<noteq> feedbackTypeCorrect
      then \<lparr>digit = g ! i, feedbackType = feedbackTypeAbsent\<rparr>
      else fb ! i)"

text \<open>
  A report used in the worked examples below: guess digits 7, 3, 0, 0, 1 (units first) with
  kinds Correct, Absent, Correct, Present, Correct.
\<close>

abbreviation exampleReport :: "feedback list" where
  "exampleReport \<equiv>
     [\<lparr>digit = 7, feedbackType = feedbackTypeCorrect\<rparr>,
      \<lparr>digit = 3, feedbackType = feedbackTypeAbsent\<rparr>,
      \<lparr>digit = 0, feedbackType = feedbackTypeCorrect\<rparr>,
      \<lparr>digit = 0, feedbackType = feedbackTypePresent\<rparr>,
      \<lparr>digit = 1, feedbackType = feedbackTypeCorrect\<rparr>]"

section \<open>Properties of the digit codec\<close>

lemma upt_Suc_shift: "[0..<Suc k] = 0 # map Suc [0..<k]"
  by (metis map_Suc_upt upt_conv_Cons zero_less_Suc)

lemma digit_upt_shift:
  "map (\<lambda>i. ((n::nat) div 10 ^ i) mod 10) [0..<Suc k]
     = (n mod 10) # map (\<lambda>i. (n div 10 div 10 ^ i) mod 10) [0..<k]"
  unfolding upt_Suc_shift by (simp add: div_mult2_eq comp_def)

lemma getDigitsLoop_eq:
  "getDigitsLoop k n acc = acc @ map (\<lambda>i. (n div 10 ^ i) mod 10) [0..<k]"
proof (induction k arbitrary: n acc)
  case 0
  show ?case by simp
next
  case (Suc k)
  show ?case
    unfolding getDigitsLoop.simps Suc.IH digit_upt_shift by simp
qed

lemma getDigits_eq: "getDigits n k = map (\<lambda>i. (n div 10 ^ i) mod 10) [0..<k]"
  by (simp add: getDigits_def getDigitsLoop_eq)

lemma getDigits_length [simp]: "length (getDigits n k) = k"
  by (simp add: getDigits_eq)

lemma getDigits_nth: "i < k \<Longrightarrow> getDigits n k ! i = (n div 10 ^ i) mod 10"
  by (simp add: getDigits_eq)

lemma horner_digits:
  "horner (map (\<lambda>i. ((n::nat) div 10 ^ i) mod 10) [0..<k]) = n mod 10 ^ k"
proof (induction k arbitrary: n)
  case 0
  show ?case by simp
next
  case (Suc k)
  have "horner (map (\<lambda>i. (n div 10 ^ i) mod 10) [0..<Suc k])
        = n mod 10 + 10 * horner (map (\<lambda>i. (n div 10 div 10 ^ i) mod 10) [0..<k])"
    unfolding digit_upt_shift by simp
  also have "\<dots> = n mod 10 + 10 * ((n div 10) mod 10 ^ k)"
    by (simp only: Suc.IH)
  also have "\<dots> = n mod 10 ^ Suc k"
    by (simp add: mod_mult2_eq)
  finally show ?case .
qed

text \<open>The five digits written out; this is the form concrete evaluations use.\<close>

lemma getDigits_five:
  "getDigits n 5
     = [n mod 10, n div 10 mod 10, n div 100 mod 10, n div 1000 mod 10, n div 10000 mod 10]"
proof -
  have five: "(5::nat) = Suc (Suc (Suc (Suc (Suc 0))))"
    by simp
  have d: "m div a div b = m div (a * b)" for m a b :: nat
    by (simp add: div_mult2_eq)
  show ?thesis
    unfolding getDigits_def five getDigitsLoop.simps d by simp
qed

text \<open>
  Claim C7. For every number \<open>n\<close>, \<open>getDigits n 5\<close> has exactly five entries, entry
  \<open>i\<close> is the decimal digit of weight \<open>10 ^ i\<close> (so the units come first and every entry
  is below 10), and for \<open>n < 100000\<close> Horner's rule over that order gives \<open>n\<close> back.
\<close>

theorem getDigits_five_roundtrip:
  "length (getDigits n 5) = 5
   \<and> (\<forall>i<5. getDigits n 5 ! i = (n div 10 ^ i) mod 10 \<and> getDigits n 5 ! i < 10)
   \<and> (n < 100000 \<longrightarrow> horner (getDigits n 5) = n)"
proof (intro conjI allI impI)
  show "length (getDigits n 5) = 5"
    by simp
next
  fix i :: nat
  assume "i < 5"
  then show "getDigits n 5 ! i = (n div 10 ^ i) mod 10"
    by (rule getDigits_nth)
next
  fix i :: nat
  assume "i < 5"
  then show "getDigits n 5 ! i < 10"
    by (simp add: getDigits_nth)
next
  assume "n < 100000"
  then show "horner (getDigits n 5) = n"
    by (simp add: getDigits_eq horner_digits)
qed

theorem getDigits_five_roundtrip_witness:
  "(10007::nat) < 100000 \<and> (1::nat) < 5 \<and> length (getDigits 10007 5) = 5
   \<and> getDigits 10007 5 ! 1 = 0 \<and> getDigits 10007 5 ! 1 < 10
   \<and> horner (getDigits 10007 5) = 10007"
  using getDigits_five_roundtrip [of 10007] by simp

section \<open>Properties of the candidate filter\<close>

lemmas feedbackType_defs = feedbackTypeAbsent_def feedbackTypePresent_def feedbackTypeCorrect_def

lemma all_less_Suc_shift: "(\<forall>k<Suc n. P k) \<longleftrightarrow> P 0 \<and> (\<forall>k<n. P (Suc k))"
  by (auto simp: less_Suc_eq_0_disj)

lemma ex_less_Suc_shift: "(\<exists>k<Suc n. P k) \<longleftrightarrow> P 0 \<or> (\<exists>k<n. P (Suc k))"
  by (auto simp: less_Suc_eq_0_disj)

lemma filterLoop_total:
  "(\<forall>x\<in>set xs. predicate x = Inr (p x)) \<Longrightarrow>
   filterLoop xs predicate acc = Inr (acc @ filter p xs)"
  by (induction xs arbitrary: acc) simp_all

lemma filter_slice_total:
  "(\<forall>x\<in>set xs. predicate x = Inr (p x)) \<Longrightarrow> filter_slice xs predicate = Inr (filter p xs)"
  using filterLoop_total [of xs predicate p "[]"] by (simp add: filter_slice_def)

lemma contains_iff: "contains xs e \<longleftrightarrow> e \<in> set xs"
  by (induction xs) auto

lemma presentScan_iff:
  "presentScan ds idx d i cps \<longleftrightarrow> (\<exists>j<length ds. ds ! j = d \<and> idx + j \<noteq> i \<and> idx + j \<notin> set cps)"
proof (induction ds arbitrary: idx)
  case Nil
  show ?case by simp
next
  case (Cons x xs)
  have "(\<exists>j<length (x # xs). (x # xs) ! j = d \<and> idx + j \<noteq> i \<and> idx + j \<notin> set cps)
        \<longleftrightarrow> (x = d \<and> idx \<noteq> i \<and> idx \<notin> set cps)
             \<or> (\<exists>j<length xs. xs ! j = d \<and> Suc idx + j \<noteq> i \<and> Suc idx + j \<notin> set cps)"
    by (auto simp: less_Suc_eq_0_disj)
  then show ?case
    using Cons.IH [of "Suc idx"] by (auto simp: contains_iff)
qed

lemma absentScan_iff:
  "absentScan ds idx d cps \<longleftrightarrow> (\<forall>j<length ds. ds ! j = d \<longrightarrow> idx + j \<in> set cps)"
proof (induction ds arbitrary: idx)
  case Nil
  show ?case by simp
next
  case (Cons x xs)
  have "(\<forall>j<length (x # xs). (x # xs) ! j = d \<longrightarrow> idx + j \<in> set cps)
        \<longleftrightarrow> (x = d \<longrightarrow> idx \<in> set cps)
             \<and> (\<forall>j<length xs. xs ! j = d \<longrightarrow> Suc idx + j \<in> set cps)"
    by (auto simp: less_Suc_eq_0_disj)
  then show ?case
    using Cons.IH [of "Suc idx"] by (auto simp: contains_iff)
qed

lemma correctPredicate_in_range:
  "i < 5 \<Longrightarrow> correctPredicate i d c = Inr (getDigits c 5 ! i = d)"
  by (simp add: correctPredicate_def index_def)

lemma correctPredicate_out_of_range:
  "\<not> i < 5 \<Longrightarrow> correctPredicate i d c = Inl IndexOutOfRange"
  by (simp add: correctPredicate_def index_def)

text \<open>The first loop, started at index \<open>i\<close> on the rest \<open>fs\<close> of the report.\<close>

lemma correctPass_total:
  assumes "\<forall>k<length fs. feedbackType (fs ! k) = feedbackTypeCorrect \<longrightarrow> i + k < 5"
  shows "\<exists>cps'. correctPass fs i cands cps
           = Inr (filter (\<lambda>c. \<forall>k<length fs. feedbackType (fs ! k) = feedbackTypeCorrect
                                  \<longrightarrow> getDigits c 5 ! (i + k) = digit (fs ! k)) cands, cps')
         \<and> set cps' = set cps \<union> {i + k |k. k < length fs \<and> feedbackType (fs ! k) = feedbackTypeCorrect}"
  using assms
proof (induction fs arbitrary: i cands cps)
  case Nil
  show ?case by simp
next
  case (Cons f fs)
  have rest: "\<forall>k<length fs. feedbackType (fs ! k) = feedbackTypeCorrect \<longrightarrow> Suc i + k < 5"
    using Cons.prems by (metis Suc_less_eq add_Suc_shift length_Cons nth_Cons_Suc)
  have split_set: "{i + k |k. k < length (f # fs) \<and> feedbackType ((f # fs) ! k) = feedbackTypeCorrect}
      = (if feedbackType f = feedbackTypeCorrect then {i} else {})
        \<union> {Suc i + k |k. k < length fs \<and> feedbackType (fs ! k) = feedbackTypeCorrect}"
    by (auto simp: less_Suc_eq_0_disj)
  show ?case
  proof (cases "feedbackType f = feedbackTypeCorrect")
    case True
    then have "i < 5"
      using Cons.prems by auto
    then have step: "filter_slice cands (correctPredicate i (digit f))
                = Inr (filter (\<lambda>c. getDigits c 5 ! i = digit f) cands)"
      by (intro filter_slice_total) (simp add: correctPredicate_in_range)
    obtain cps' where
      r: "correctPass fs (Suc i) (filter (\<lambda>c. getDigits c 5 ! i = digit f) cands) (cps @ [i])
           = Inr (filter (\<lambda>c. \<forall>k<length fs. feedbackType (fs ! k) = feedbackTypeCorrect
                                  \<longrightarrow> getDigits c 5 ! (Suc i + k) = digit (fs ! k))
                    (filter (\<lambda>c. getDigits c 5 ! i = digit f) cands), cps')"
      and s: "set cps' = set (cps @ [i])
                \<union> {Suc i + k |k. k < length fs \<and> feedbackType (fs ! k) = feedbackTypeCorrect}"
      using Cons.IH [OF rest] by blast
    have "correctPass (f # fs) i cands cps
          = Inr (filter (\<lambda>c. \<forall>k<length (f # fs). feedbackType ((f # fs) ! k) = feedbackTypeCorrect
                                  \<longrightarrow> getDigits c 5 ! (i + k) = digit ((f # fs) ! k)) cands, cps')"
      using True step r by (simp add: all_less_Suc_shift conj_commute)
    moreover have "set cps' = set cps
        \<union> {i + k |k. k < length (f # fs) \<and> feedbackType ((f # fs) ! k) = feedbackTypeCorrect}"
      unfolding split_set s using True by auto
    ultimately show ?thesis by blast
  next
    case False
    obtain cps' where
      r: "correctPass fs (Suc i) cands cps
           = Inr (filter (\<lambda>c. \<forall>k<length fs. feedbackType (fs ! k) = feedbackTypeCorrect
                                  \<longrightarrow> getDigits c 5 ! (Suc i + k) = digit (fs ! k)) cands, cps')"
      and s: "set cps' = set cps
                \<union> {Suc i + k |k. k < length fs \<and> feedbackType (fs ! k) = feedbackTypeCorrect}"
      using Cons.IH [OF rest] by blast
    have "correctPass (f # fs) i cands cps
          = Inr (filter (\<lambda>c. \<forall>k<length (f # fs). feedbackType ((f # fs) ! k) = feedbackTypeCorrect
                                  \<longrightarrow> getDigits c 5 ! (i + k) = digit ((f # fs) ! k)) cands, cps')"
      using False r by (simp add: all_less_Suc_shift)
    moreover have "set cps' = set cps
        \<union> {i + k |k. k < length (f # fs) \<and> feedbackType ((f # fs) ! k) = feedbackTypeCorrect}"
      unfolding split_set s using False by auto
    ultimately show ?thesis by blast
  qed
qed


lemma switchPass_total:
  assumes "knownKinds fs"
  shows "switchPass fs i cps cands
         = Inr (filter (\<lambda>c. \<forall>k<length fs.
                    (feedbackType (fs ! k) = feedbackTypePresent
                       \<longrightarrow> presentScan (getDigits c 5) 0 (digit (fs ! k)) (i + k) cps)
                  \<and> (feedbackType (fs ! k) = feedbackTypeAbsent
                       \<longrightarrow> absentScan (getDigits c 5) 0 (digit (fs ! k)) cps)) cands)"
  using assms
proof (induction fs arbitrary: i cands)
  case Nil
  show ?case by simp
next
  case (Cons f fs)
  have kinds: "knownKinds fs"
    using Cons.prems by (simp add: knownKinds_def)
  note IH = Cons.IH [OF kinds, of "Suc i"]
  consider (c) "feedbackType f = feedbackTypeCorrect"
    | (p) "feedbackType f = feedbackTypePresent"
    | (a) "feedbackType f = feedbackTypeAbsent"
    using Cons.prems by (auto simp: knownKinds_def)
  then show ?case
  proof cases
    case c
    then show ?thesis
      using IH by (simp add: all_less_Suc_shift feedbackType_defs)
  next
    case p
    have step: "filter_slice cands (presentPredicate i (digit f) cps)
                = Inr (filter (\<lambda>c. presentScan (getDigits c 5) 0 (digit f) i cps) cands)"
      by (intro filter_slice_total) (simp add: presentPredicate_def)
    show ?thesis
      using p step IH by (simp add: all_less_Suc_shift feedbackType_defs conj_commute)
  next
    case a
    have step: "filter_slice cands (absentPredicate (digit f) cps)
                = Inr (filter (\<lambda>c. absentScan (getDigits c 5) 0 (digit f) cps) cands)"
      by (intro filter_slice_total) (simp add: absentPredicate_def)
    show ?thesis
      using a step IH by (simp add: all_less_Suc_shift feedbackType_defs conj_commute)
  qed
qed

lemma correctWithinDigits_iff:
  "correctWithinDigits fb
     \<longleftrightarrow> (\<forall>k<length fb. feedbackType (fb ! k) = feedbackTypeCorrect \<longrightarrow> k < 5)"
  by (auto simp: correctWithinDigits_def list_all_iff isCorrectPosition_def)

text \<open>A report with one entry per digit position, five at most, is always well formed.\<close>

lemma correctWithinDigits_short: "length fb \<le> 5 \<Longrightarrow> correctWithinDigits fb"
  by (auto simp: correctWithinDigits_iff)

text \<open>
  The filter as a whole: on a well-formed report it succeeds and keeps, in order, the
  candidates that satisfy the three conditions.
\<close>

lemma incorporateFeedback_filter:
  assumes kinds: "knownKinds fb" and within: "correctWithinDigits fb"
  shows "incorporateFeedback fb cands = Inr (filter (consistent fb) cands)"
proof -
  let ?P = "\<lambda>c. \<forall>k<length fb. feedbackType (fb ! k) = feedbackTypeCorrect
                    \<longrightarrow> getDigits c 5 ! (0 + k) = digit (fb ! k)"
  have "\<forall>k<length fb. feedbackType (fb ! k) = feedbackTypeCorrect \<longrightarrow> 0 + k < 5"
    using within by (simp add: correctWithinDigits_iff)
  from correctPass_total [OF this, of cands "[]"]
  obtain cps where
    pass1: "correctPass fb 0 cands [] = Inr (filter ?P cands, cps)"
    and cps: "set cps = {k. isCorrectPosition fb k}"
    by (auto simp: isCorrectPosition_def)
  let ?Q = "\<lambda>c. \<forall>k<length fb.
                    (feedbackType (fb ! k) = feedbackTypePresent
                       \<longrightarrow> presentScan (getDigits c 5) 0 (digit (fb ! k)) (0 + k) cps)
                  \<and> (feedbackType (fb ! k) = feedbackTypeAbsent
                       \<longrightarrow> absentScan (getDigits c 5) 0 (digit (fb ! k)) cps)"
  have pass2: "switchPass fb 0 cps (filter ?P cands) = Inr (filter ?Q (filter ?P cands))"
    by (rule switchPass_total [OF kinds])
  have same: "(?P c \<and> ?Q c) \<longleftrightarrow> consistent fb c" for c
    unfolding consistent_def presentScan_iff absentScan_iff cps
    by (auto simp: feedbackType_defs)
  have "incorporateFeedback fb cands = switchPass fb 0 cps (filter ?P cands)"
    unfolding incorporateFeedback_def pass1 by simp
  also have "\<dots> = Inr (filter ?Q (filter ?P cands))"
    by (rule pass2)
  also have "filter ?Q (filter ?P cands) = filter (\<lambda>c. ?P c \<and> ?Q c) cands"
    by (rule filter_filter)
  finally show ?thesis
    by (simp only: same)
qed

lemmas filter_eval =
  incorporateFeedback_def filter_slice_def correctPredicate_def presentPredicate_def
  absentPredicate_def index_def getDigits_five feedbackType_defs

lemma exampleReport_wellformed: "knownKinds exampleReport \<and> correctWithinDigits exampleReport"
  by (simp add: knownKinds_def correctWithinDigits_def isCorrectPosition_def feedbackType_defs)

lemma exampleReport_filter:
  "incorporateFeedback exampleReport [10007, 10037, 10039, 11007] = Inr [10007, 11007]"
  by (simp add: filter_eval)

text \<open>
  Outside the well-formed reports the first loop reads \<open>getDigits(candidate, 5)[i]\<close> with
  \<open>i = 5\<close> and the call panics; this is why the statements below ask for Correct entries
  at digit positions only.
\<close>

lemma incorporateFeedback_sixth_position_panics:
  "incorporateFeedback (exampleReport @ [\<lparr>digit = 1, feedbackType = feedbackTypeCorrect\<rparr>])
     [10007] = Inl IndexOutOfRange"
  by (simp add: filter_eval)

lemma incorporateFeedback_unknown_kind_exits:
  "incorporateFeedback [\<lparr>digit = 1, feedbackType = 3\<rparr>] [10007] = Inl UnknownFeedbackType"
  by (simp add: filter_eval)

text \<open>
  Claim C2. For a feedback report whose kinds are all Correct, Present or Absent and any
  candidate list, \<open>incorporateFeedback\<close> returns exactly the input candidates, in their
  order, that agree with every Correct digit, contain every Present digit at another
  position that is not Correct, and have no Absent digit outside the Correct positions.
  A report has one entry per digit position of a five-digit guess; the statement needs of
  this only that its Correct entries sit at positions below 5 (\<open>correctWithinDigits\<close>,
  which every report of at most five entries satisfies).
\<close>

theorem incorporateFeedback_exact:
  "knownKinds fb \<Longrightarrow> correctWithinDigits fb \<Longrightarrow>
   incorporateFeedback fb candidates = Inr (filter (consistent fb) candidates)"
  by (rule incorporateFeedback_filter)

theorem incorporateFeedback_exact_witness:
  "knownKinds exampleReport \<and> correctWithinDigits exampleReport
   \<and> filter (consistent exampleReport) [10007, 10037, 10039, 11007] = [10007, 11007]"
  using exampleReport_wellformed exampleReport_filter
    incorporateFeedback_exact [of exampleReport "[10007, 10037, 10039, 11007]"]
  by simp

text \<open>
  Claim C8. Filtering is idempotent: on a well-formed report the filter succeeds, and
  filtering its result again with the same report succeeds with the same result.
\<close>

theorem incorporateFeedback_idempotent:
  "knownKinds fb \<Longrightarrow> correctWithinDigits fb \<Longrightarrow>
   \<exists>r. incorporateFeedback fb candidates = Inr r \<and> incorporateFeedback fb r = Inr r"
  by (simp add: incorporateFeedback_filter)

theorem incorporateFeedback_idempotent_witness:
  "knownKinds exampleReport \<and> correctWithinDigits exampleReport
   \<and> incorporateFeedback exampleReport [10007, 10037, 10039, 11007] = Inr [10007, 11007]
   \<and> incorporateFeedback exampleReport [10007, 11007] = Inr [10007, 11007]"
  using exampleReport_wellformed exampleReport_filter
    incorporateFeedback_idempotent [of exampleReport "[10007, 10037, 10039, 11007]"]
  by auto

text \<open>
  Claim C9. Filtering never grows the candidate list: on a well-formed report the filter
  succeeds, its result is a subsequence of the input and is at most as long.
\<close>

theorem incorporateFeedback_shrinks:
  "knownKinds fb \<Longrightarrow> correctWithinDigits fb \<Longrightarrow>
   \<exists>r. incorporateFeedback fb candidates = Inr r
       \<and> length r \<le> length candidates \<and> subseq r candidates"
  by (simp add: incorporateFeedback_filter)

theorem incorporateFeedback_shrinks_witness:
  "knownKinds exampleReport \<and> correctWithinDigits exampleReport
   \<and> incorporateFeedback exampleReport [10007, 10037, 10039, 11007] = Inr [10007, 11007]
   \<and> length [10007, 11007 :: nat] \<le> length [10007, 10037, 10039, 11007 :: nat]
   \<and> subseq [10007, 11007 :: nat] [10007, 10037, 10039, 11007]"
  using exampleReport_wellformed exampleReport_filter
    incorporateFeedback_shrinks [of exampleReport "[10007, 10037, 10039, 11007]"]
  by auto

section \<open>Properties of the feedback evaluator\<close>

lemma correctLoop_length [simp]: "length (correctLoop g s i fb) = length fb"
proof (induction g s i fb rule: correctLoop.induct)
  case (1 g s i fb)
  show ?case
  proof (cases "i < length g")
    case True
    then show ?thesis
      using "1.IH" by (subst correctLoop.simps) simp
  next
    case False
    then show ?thesis
      by (subst correctLoop.simps) simp
  qed
qed

lemma correctLoop_nth:
  "k < length fb \<Longrightarrow>
   correctLoop g s i fb ! k
     = (if i \<le> k \<and> k < length g \<and> g ! k = s ! k
        then \<lparr>digit = g ! k, feedbackType = feedbackTypeCorrect\<rparr> else fb ! k)"
proof (induction g s i fb rule: correctLoop.induct)
  case (1 g s i fb)
  show ?case
  proof (cases "i < length g")
    case True
    let ?fb' = "if g ! i = s ! i
                then fb[i := \<lparr>digit = g ! i, feedbackType = feedbackTypeCorrect\<rparr>] else fb"
    have unfold: "correctLoop g s i fb = correctLoop g s (i + 1) ?fb'"
      using True by (subst correctLoop.simps) simp
    have "k < length ?fb'"
      using "1.prems" by simp
    from "1.IH" [OF True this]
    have "correctLoop g s (i + 1) ?fb' ! k
          = (if i + 1 \<le> k \<and> k < length g \<and> g ! k = s ! k
             then \<lparr>digit = g ! k, feedbackType = feedbackTypeCorrect\<rparr> else ?fb' ! k)" .
    then show ?thesis
      unfolding unfold using "1.prems" True by (cases "k = i") (auto simp: nth_list_update)
  next
    case False
    then show ?thesis
      by (subst correctLoop.simps) simp
  qed
qed

lemma scanSolution_done: "\<not> j < length s \<Longrightarrow> scanSolution g s i j fb = fb"
  by (subst scanSolution.simps) simp

lemma scanSolution_eq:
  assumes "i < length fb" and "feedbackType (fb ! i) \<noteq> feedbackTypeCorrect"
  shows "scanSolution g s i j fb
     = (if \<exists>j'. j \<le> j' \<and> j' < length s \<and> feedbackType (fb ! j') \<noteq> feedbackTypeCorrect \<and> s ! j' = g ! i
        then fb[i := \<lparr>digit = g ! i, feedbackType = feedbackTypePresent\<rparr>]
        else if j < length s \<and> feedbackType (fb ! (length s - 1)) \<noteq> feedbackTypeCorrect
        then fb[i := \<lparr>digit = g ! i, feedbackType = feedbackTypeAbsent\<rparr>]
        else fb)"
  using assms
proof (induction g s i j fb rule: scanSolution.induct)
  case (1 g s i j fb)
  let ?hit = "\<lambda>j fb. \<exists>j'. j \<le> j' \<and> j' < length s \<and> feedbackType (fb ! j') \<noteq> feedbackTypeCorrect \<and> s ! j' = g ! i"
  show ?case
  proof (cases "j < length s")
    case False
    then show ?thesis
      by (subst scanSolution.simps) auto
  next
    case inrange: True
    show ?thesis
    proof (cases "feedbackType (fb ! j) = feedbackTypeCorrect")
      case True
      have unfold: "scanSolution g s i j fb = scanSolution g s i (j + 1) fb"
        using inrange True by (subst scanSolution.simps) simp
      have hit: "?hit j fb \<longleftrightarrow> ?hit (j + 1) fb"
        using True by (metis Suc_eq_plus1 Suc_leD Suc_leI le_neq_implies_less)
      have edge: "\<not> j + 1 < length s \<Longrightarrow> length s - 1 = j"
        using inrange by auto
      show ?thesis
        unfolding unfold "1.IH"(1) [OF inrange True "1.prems"] hit [symmetric]
        using True inrange edge by auto
    next
      case notc: False
      show ?thesis
      proof (cases "s ! j = g ! i")
        case True
        have "scanSolution g s i j fb = fb[i := \<lparr>digit = g ! i, feedbackType = feedbackTypePresent\<rparr>]"
          using inrange notc True by (subst scanSolution.simps) simp
        moreover have "?hit j fb"
          using inrange notc True by auto
        ultimately show ?thesis by simp
      next
        case nomatch: False
        have hit: "?hit j fb \<longleftrightarrow> ?hit (j + 1) fb"
          using nomatch by (metis Suc_eq_plus1 Suc_leD Suc_leI le_neq_implies_less)
        show ?thesis
        proof (cases "j = length s - 1")
          case True
          let ?fb' = "fb[i := \<lparr>digit = g ! i, feedbackType = feedbackTypeAbsent\<rparr>]"
          have "scanSolution g s i j fb = scanSolution g s i (j + 1) ?fb'"
            using inrange notc nomatch True by (subst scanSolution.simps) simp
          also have "\<dots> = ?fb'"
            by (rule scanSolution_done) (use True inrange in auto)
          finally have r: "scanSolution g s i j fb = ?fb'" .
          have "\<not> ?hit (j + 1) fb"
            using True by auto
          then have "\<not> ?hit j fb"
            using hit by simp
          then show ?thesis
            unfolding r using inrange notc True by auto
        next
          case False
          have unfold: "scanSolution g s i j fb = scanSolution g s i (j + 1) fb"
            using inrange notc nomatch False by (subst scanSolution.simps) simp
          have last: "j + 1 < length s"
            using inrange False by auto
          show ?thesis
            unfolding unfold "1.IH"(3) [OF inrange notc nomatch False "1.prems"] hit [symmetric]
            using inrange last by auto
        qed
      qed
    qed
  qed
qed


lemma scanSolution_zero:
  assumes "i < length fb" and "feedbackType (fb ! i) \<noteq> feedbackTypeCorrect"
    and "length s = length fb"
  shows "scanSolution g s i 0 fb = fb[i := scanResult g s fb i]"
proof -
  have "0 < length s"
    using assms by (cases fb) auto
  then show ?thesis
    unfolding scanSolution_eq [OF assms(1,2)] scanResult_def by auto
qed

lemma scanResult_not_correct:
  "feedbackType (fb ! i) \<noteq> feedbackTypeCorrect
   \<Longrightarrow> feedbackType (scanResult g s fb i) \<noteq> feedbackTypeCorrect"
  by (simp add: scanResult_def feedbackType_defs)

lemma scanResult_cong:
  assumes "length fb' = length fb" and "length s = length fb" and "k < length fb"
    and "fb' ! k = fb ! k"
    and "\<forall>j<length fb. feedbackType (fb' ! j) = feedbackTypeCorrect
                          \<longleftrightarrow> feedbackType (fb ! j) = feedbackTypeCorrect"
  shows "scanResult g s fb' k = scanResult g s fb k"
proof -
  have ex: "(\<exists>j<length s. feedbackType (fb' ! j) \<noteq> feedbackTypeCorrect \<and> s ! j = g ! k)
        \<longleftrightarrow> (\<exists>j<length s. feedbackType (fb ! j) \<noteq> feedbackTypeCorrect \<and> s ! j = g ! k)"
    using assms(2,5) by auto
  have "length s - 1 < length fb"
    using assms by simp
  then have last: "feedbackType (fb' ! (length s - 1)) = feedbackTypeCorrect
        \<longleftrightarrow> feedbackType (fb ! (length s - 1)) = feedbackTypeCorrect"
    using assms(5) by blast
  show ?thesis
    unfolding scanResult_def ex last assms(4) by (rule refl)
qed

lemma presentAbsentLoop_props:
  assumes "length fb = length g" and "length s = length g"
  shows "length (presentAbsentLoop g s i fb) = length g
    \<and> (\<forall>k<length g. presentAbsentLoop g s i fb ! k
          = (if i \<le> k \<and> feedbackType (fb ! k) \<noteq> feedbackTypeCorrect
             then scanResult g s fb k else fb ! k))"
  using assms
proof (induction g s i fb rule: presentAbsentLoop.induct)
  case (1 g s i fb)
  show ?case
  proof (cases "i < length g")
    case False
    then show ?thesis
      using "1.prems" by (subst (1 2) presentAbsentLoop.simps) simp
  next
    case inrange: True
    show ?thesis
    proof (cases "feedbackType (fb ! i) = feedbackTypeCorrect")
      case True
      have unfold: "presentAbsentLoop g s i fb = presentAbsentLoop g s (i + 1) fb"
        using inrange True by (subst presentAbsentLoop.simps) simp
      note IH = "1.IH"(1) [OF inrange True "1.prems"]
      have "presentAbsentLoop g s (i + 1) fb ! k
            = (if i \<le> k \<and> feedbackType (fb ! k) \<noteq> feedbackTypeCorrect
               then scanResult g s fb k else fb ! k)" if k: "k < length g" for k
      proof (cases "k = i")
        case keq: True
        then show ?thesis
          using IH k True by simp
      next
        case False
        then have "i + 1 \<le> k \<longleftrightarrow> i \<le> k"
          by auto
        then show ?thesis
          using IH k by simp
      qed
      then show ?thesis
        unfolding unfold using IH by simp
    next
      case False
      let ?fb' = "scanSolution g s i 0 fb"
      have ilen: "i < length fb"
        using inrange "1.prems" by simp
      have fb': "?fb' = fb[i := scanResult g s fb i]"
        using inrange False "1.prems" by (intro scanSolution_zero) simp_all
      have len: "length ?fb' = length g"
        unfolding fb' using "1.prems" by simp
      have unfold: "presentAbsentLoop g s i fb = presentAbsentLoop g s (i + 1) ?fb'"
        using inrange False by (subst presentAbsentLoop.simps) simp
      note IH = "1.IH"(2) [OF inrange False len "1.prems"(2)]
      have same_kind: "\<forall>j<length fb. feedbackType (?fb' ! j) = feedbackTypeCorrect
                          \<longleftrightarrow> feedbackType (fb ! j) = feedbackTypeCorrect"
        unfolding fb' using False scanResult_not_correct [OF False, of g s] ilen
        by (auto simp: nth_list_update)
      have "presentAbsentLoop g s (i + 1) ?fb' ! k
            = (if i \<le> k \<and> feedbackType (fb ! k) \<noteq> feedbackTypeCorrect
               then scanResult g s fb k else fb ! k)" if k: "k < length g" for k
      proof (cases "k = i")
        case True
        have "presentAbsentLoop g s (i + 1) ?fb' ! k = ?fb' ! k"
          using IH k True by simp
        also have "\<dots> = scanResult g s fb i"
          unfolding fb' using True inrange "1.prems" by simp
        finally show ?thesis
          using True False by simp
      next
        case neq: False
        have keep: "?fb' ! k = fb ! k"
          unfolding fb' using neq by simp
        have "scanResult g s ?fb' k = scanResult g s fb k"
          using len "1.prems" k keep same_kind by (intro scanResult_cong) simp_all
        moreover have "feedbackType (?fb' ! k) = feedbackTypeCorrect
               \<longleftrightarrow> feedbackType (fb ! k) = feedbackTypeCorrect"
          using keep by simp
        moreover have "i + 1 \<le> k \<longleftrightarrow> i \<le> k"
          using neq by auto
        ultimately show ?thesis
          using IH k keep by simp
      qed
      then show ?thesis
        unfolding unfold using IH by simp
    qed
  qed
qed

lemma zeroFeedback_kind: "feedbackType zeroFeedback = feedbackTypeAbsent"
  by (simp add: zeroFeedback_def feedbackType_defs)

text \<open>What the evaluator returns at every position.\<close>

lemma getFeedbackPerDigit_eq:
  assumes "length g = length s"
  shows "getFeedbackPerDigit g s = Inr (map (feedbackAt g s) [0..<length g])"
proof -
  let ?fb0 = "replicate (length g) zeroFeedback"
  let ?fb1 = "correctLoop g s 0 ?fb0"
  let ?fb2 = "presentAbsentLoop g s 0 ?fb1"
  have len1: "length ?fb1 = length g"
    by simp
  have fb1: "?fb1 ! k = (if g ! k = s ! k
                         then \<lparr>digit = g ! k, feedbackType = feedbackTypeCorrect\<rparr>
                         else zeroFeedback)" if "k < length g" for k
    using that by (simp add: correctLoop_nth)
  have kind1: "feedbackType (?fb1 ! k) = feedbackTypeCorrect \<longleftrightarrow> g ! k = s ! k"
    if "k < length g" for k
    using that by (simp add: fb1 zeroFeedback_kind) (simp add: feedbackType_defs)
  have props: "length ?fb2 = length g
    \<and> (\<forall>k<length g. ?fb2 ! k
          = (if 0 \<le> k \<and> feedbackType (?fb1 ! k) \<noteq> feedbackTypeCorrect
             then scanResult g s ?fb1 k else ?fb1 ! k))"
    using assms by (intro presentAbsentLoop_props) simp_all
  have "?fb2 ! k = feedbackAt g s k" if k: "k < length g" for k
  proof -
    have last: "length s - 1 < length g"
      using k assms by simp
    have ex: "(\<exists>j<length s. feedbackType (?fb1 ! j) \<noteq> feedbackTypeCorrect \<and> s ! j = g ! k)
              \<longleftrightarrow> (\<exists>j<length s. g ! j \<noteq> s ! j \<and> s ! j = g ! k)"
      using kind1 assms by auto
    show ?thesis
    proof (cases "g ! k = s ! k")
      case True
      then show ?thesis
        using props k kind1 [OF k] fb1 [OF k] by (simp add: feedbackAt_def)
    next
      case False
      then have "?fb2 ! k = scanResult g s ?fb1 k"
        using props k kind1 [OF k] by simp
      also have "\<dots> = feedbackAt g s k"
        by (simp only: scanResult_def feedbackAt_def ex kind1 [OF last] fb1 [OF k] False if_False)
      finally show ?thesis .
    qed
  qed
  then have "?fb2 = map (feedbackAt g s) [0..<length g]"
    using props by (intro nth_equalityI) simp_all
  then show ?thesis
    using assms by (simp add: getFeedbackPerDigit_def)
qed

lemmas feedback_eval =
  getFeedbackPerDigit_def correctLoop.simps scanSolution.simps presentAbsentLoop.simps
  zeroFeedback_def getDigits_five feedbackType_defs

lemma feedbackAt_kind:
  "feedbackType (feedbackAt g s i) = feedbackTypeCorrect
   \<or> feedbackType (feedbackAt g s i) = feedbackTypePresent
   \<or> feedbackType (feedbackAt g s i) = feedbackTypeAbsent"
  by (simp add: feedbackAt_def zeroFeedback_kind)

text \<open>
  The part of claim C1 that the code meets: the result has the length of the guess and the
  kind at every position is the one the two-pass rule prescribes. The digit stored is the
  guess digit except at an Absent position when the last position is Correct, where it is 0.
\<close>

lemma getFeedbackPerDigit_kinds:
  assumes "length g = length s"
  shows "\<exists>fb. getFeedbackPerDigit g s = Inr fb \<and> length fb = length g
    \<and> (\<forall>i<length g.
          (feedbackType (fb ! i) = feedbackTypeCorrect \<longleftrightarrow> g ! i = s ! i)
        \<and> (feedbackType (fb ! i) = feedbackTypePresent
             \<longleftrightarrow> g ! i \<noteq> s ! i \<and> (\<exists>j<length s. g ! j \<noteq> s ! j \<and> s ! j = g ! i))
        \<and> (feedbackType (fb ! i) = feedbackTypeAbsent
             \<longleftrightarrow> g ! i \<noteq> s ! i \<and> \<not> (\<exists>j<length s. g ! j \<noteq> s ! j \<and> s ! j = g ! i))
        \<and> (digit (fb ! i) = g ! i
             \<or> (feedbackType (fb ! i) = feedbackTypeAbsent \<and> digit (fb ! i) = 0
                 \<and> g ! (length s - 1) = s ! (length s - 1))))"
proof -
  have "feedbackType (feedbackAt g s i) = feedbackTypeCorrect \<longleftrightarrow> g ! i = s ! i" for i
    by (simp add: feedbackAt_def zeroFeedback_def feedbackType_defs)
  moreover have "feedbackType (feedbackAt g s i) = feedbackTypePresent
             \<longleftrightarrow> g ! i \<noteq> s ! i \<and> (\<exists>j<length s. g ! j \<noteq> s ! j \<and> s ! j = g ! i)" for i
    by (simp add: feedbackAt_def zeroFeedback_def feedbackType_defs)
  moreover have "feedbackType (feedbackAt g s i) = feedbackTypeAbsent
             \<longleftrightarrow> g ! i \<noteq> s ! i \<and> \<not> (\<exists>j<length s. g ! j \<noteq> s ! j \<and> s ! j = g ! i)" for i
    by (simp add: feedbackAt_def zeroFeedback_def feedbackType_defs)
  moreover have "digit (feedbackAt g s i) = g ! i
             \<or> (feedbackType (feedbackAt g s i) = feedbackTypeAbsent \<and> digit (feedbackAt g s i) = 0
                 \<and> g ! (length s - 1) = s ! (length s - 1))" for i
    by (simp add: feedbackAt_def zeroFeedback_def feedbackType_defs)
  ultimately show ?thesis
    unfolding getFeedbackPerDigit_eq [OF assms] by simp
qed

text \<open>
  Claim C1, at the input where the code departs from it: guess 11113 against solution
  10007. The last position (index 4) is Correct, so the second pass never reaches its
  Absent assignment and positions 0 to 3 keep the zero value: the report pairs them with
  digit 0, not with the guess digits 3, 1, 1, 1.
\<close>

theorem getFeedbackPerDigit_loses_guess_digit:
  "getDigits 11113 5 = [3, 1, 1, 1, 1] \<and> getDigits 10007 5 = [7, 0, 0, 0, 1]
   \<and> getFeedbackPerDigit (getDigits 11113 5) (getDigits 10007 5)
     = Inr [\<lparr>digit = 0, feedbackType = feedbackTypeAbsent\<rparr>,
            \<lparr>digit = 0, feedbackType = feedbackTypeAbsent\<rparr>,
            \<lparr>digit = 0, feedbackType = feedbackTypeAbsent\<rparr>,
            \<lparr>digit = 0, feedbackType = feedbackTypeAbsent\<rparr>,
            \<lparr>digit = 1, feedbackType = feedbackTypeCorrect\<rparr>]"
  by (simp add: feedback_eval)

text \<open>
  Claim C4, at an input where the code departs from it: with the candidates 10007 and
  11113, the report for guess 11113 against the solution 10007 makes the filter drop
  10007, the very number the report was computed from (the zero-valued Absent entries
  forbid the digit 0, which 10007 has), and keep 11113.
\<close>

theorem solution_eliminated_by_own_feedback:
  "\<exists>fb. getFeedbackPerDigit (getDigits 11113 5) (getDigits 10007 5) = Inr fb
       \<and> incorporateFeedback fb [10007, 11113] = Inr [11113]"
  by (simp add: feedback_eval filter_eval)


section \<open>Properties of the simulation selector\<close>

lemma knownKinds_feedbackAt: "knownKinds (map (feedbackAt g s) xs)"
  unfolding knownKinds_def list_all_iff using feedbackAt_kind by auto

text \<open>The report of a guess against a candidate, as the simulation computes it.\<close>

lemma simulation_feedback:
  "getFeedbackPerDigit (getDigits g 5) (getDigits s 5)
     = Inr (map (feedbackAt (getDigits g 5) (getDigits s 5)) [0..<5])"
  using getFeedbackPerDigit_eq [of "getDigits g 5" "getDigits s 5"] by simp

lemma simulation_filter:
  "incorporateFeedback (map (feedbackAt (getDigits g 5) (getDigits s 5)) [0..<5]) cands
     = Inr (filter (consistent (map (feedbackAt (getDigits g 5) (getDigits s 5)) [0..<5])) cands)"
  by (intro incorporateFeedback_filter knownKinds_feedbackAt correctWithinDigits_short) simp

lemma evaluateGuessLoop_sim_eq:
  "evaluateGuessLoop_sim g ss cands acc
     = Inr (acc + (\<Sum>s\<leftarrow>ss. length (filter (consistent (map (feedbackAt (getDigits g 5) (getDigits s 5)) [0..<5])) cands)))"
proof (induction ss arbitrary: acc)
  case Nil
  show ?case by simp
next
  case (Cons s ss)
  show ?case
    by (simp add: simulation_feedback simulation_filter Cons.IH del: upt_Suc)
qed

lemma simScore_eq:
  "simScore cands g
     = (\<Sum>s\<leftarrow>cands. length (filter (consistent (map (feedbackAt (getDigits g 5) (getDigits s 5)) [0..<5])) cands))"
  unfolding simScore_def simulation_feedback by (simp add: simulation_filter del: upt_Suc)

text \<open>\<open>evaluateGuess\<close> computes the score of the specification and never fails.\<close>

lemma evaluateGuess_sim_eq: "evaluateGuess_sim g cands = Inr (simScore cands g)"
  by (simp add: evaluateGuess_sim_def evaluateGuessLoop_sim_eq simScore_eq)

lemma consistent_own_feedback:
  "consistent (map (feedbackAt (getDigits g 5) (getDigits g 5)) [0..<5]) g"
  by (simp add: consistent_def feedbackAt_def feedbackType_defs del: upt_Suc)

lemma simScore_positive:
  assumes "g \<in> set cands"
  shows "0 < simScore cands g"
proof -
  let ?survivors = "\<lambda>s. length (filter (consistent (map (feedbackAt (getDigits g 5) (getDigits s 5)) [0..<5])) cands)"
  have "g \<in> set (filter (consistent (map (feedbackAt (getDigits g 5) (getDigits g 5)) [0..<5])) cands)"
    using assms consistent_own_feedback by simp
  then have "0 < ?survivors g"
    by (simp only: length_pos_if_in_set)
  moreover have "?survivors g \<in> set (map ?survivors cands)"
    unfolding set_map using assms by (rule imageI)
  then have "?survivors g \<le> sum_list (map ?survivors cands)"
    by (intro member_le_sum_list) simp_all
  ultimately show ?thesis
    unfolding simScore_eq by linarith
qed

text \<open>
  Every candidate has a positive score and \<open>bestGuessValue\<close> stays 0, so every iteration
  of the loop overwrites \<open>bestGuess\<close>: the loop returns the last guess it visits.
\<close>

lemma findBestGuessLoop_sim_last:
  "set gs \<subseteq> set cands \<Longrightarrow>
   findBestGuessLoop_sim gs cands best 0 = Inr (if gs = [] then best else last gs)"
proof (induction gs arbitrary: best)
  case Nil
  show ?case by simp
next
  case (Cons g gs)
  then have "0 < simScore cands g" and "set gs \<subseteq> set cands"
    by (simp_all add: simScore_positive)
  then show ?case
    using Cons.IH [of g] by (simp add: evaluateGuess_sim_eq)
qed

lemma findBestGuess_sim_last:
  "findBestGuess_sim cands = Inr (if cands = [] then 0 else last cands)"
  by (simp add: findBestGuess_sim_def findBestGuessLoop_sim_last)

text \<open>
  Claim C3, at an input where the code departs from it. With the candidates 10007, 10037
  and 10039 the sums of remaining candidates are 4, 4 and 5. The minimal sum is 4 and its
  first holder is 10007; the code returns 10039, the guess with the largest sum.
\<close>

theorem findBestGuess_sim_returns_last:
  "evaluateGuess_sim 10007 [10007, 10037, 10039] = Inr 4
   \<and> evaluateGuess_sim 10037 [10007, 10037, 10039] = Inr 4
   \<and> evaluateGuess_sim 10039 [10007, 10037, 10039] = Inr 5
   \<and> findBestGuess_sim [10007, 10037, 10039] = Inr 10039"
  by (simp add: findBestGuess_sim_last evaluateGuess_sim_def feedback_eval filter_eval)

section \<open>Properties of the frequency selector\<close>

lemma lookupFreq_update:
  "lookupFreq (m(d \<mapsto> v)) d' = (if d' = d then v else lookupFreq m d')"
  by (simp add: lookupFreq_def)

lemma countDigits_props:
  "j + length ds \<le> length result \<Longrightarrow>
   length (countDigits ds j result) = length result
   \<and> (\<forall>k<length result. \<forall>d.
         lookupFreq (countDigits ds j result ! k) d
           = lookupFreq (result ! k) d
             + (if j \<le> k \<and> k < j + length ds \<and> ds ! (k - j) = d then 1 else 0))"
proof (induction ds arbitrary: j result)
  case Nil
  show ?case by simp
next
  case (Cons x xs)
  let ?r = "result[j := (result ! j)(x \<mapsto> lookupFreq (result ! j) x + 1)]"
  have jlen: "j < length result"
    using Cons.prems by simp
  have "Suc j + length xs \<le> length ?r"
    using Cons.prems by simp
  note IH = Cons.IH [OF this]
  have len: "length (countDigits (x # xs) j result) = length result"
    using IH by simp
  have "lookupFreq (countDigits (x # xs) j result ! k) d
          = lookupFreq (result ! k) d
            + (if j \<le> k \<and> k < j + length (x # xs) \<and> (x # xs) ! (k - j) = d then 1 else 0)"
    if k: "k < length result" for k d
  proof -
    have step: "lookupFreq (countDigits (x # xs) j result ! k) d
          = lookupFreq (?r ! k) d
            + (if Suc j \<le> k \<and> k < Suc j + length xs \<and> xs ! (k - Suc j) = d then 1 else 0)"
      using IH k by simp
    show ?thesis
    proof (cases "k = j")
      case True
      then show ?thesis
        unfolding step using jlen by (simp add: lookupFreq_update)
    next
      case False
      then have "(x # xs) ! (k - j) = xs ! (k - Suc j)" if "j \<le> k"
        using that by (simp add: nth_Cons')
      then show ?thesis
        unfolding step using False by auto
    qed
  qed
  then show ?case
    using len by blast
qed

lemma countNumbers_props:
  "length result = nd \<Longrightarrow>
   length (countNumbers ns nd result) = nd
   \<and> (\<forall>k<nd. \<forall>d.
         lookupFreq (countNumbers ns nd result ! k) d
           = lookupFreq (result ! k) d + length (filter (\<lambda>c. getDigits c nd ! k = d) ns))"
proof (induction ns arbitrary: result)
  case Nil
  then show ?case by simp
next
  case (Cons n ns)
  let ?r = "countDigits (getDigits n nd) 0 result"
  have fit: "0 + length (getDigits n nd) \<le> length result"
    using Cons.prems by simp
  note step = countDigits_props [OF fit]
  have len: "length ?r = nd"
    using step Cons.prems by simp
  note IH = Cons.IH [OF len]
  have "lookupFreq (countNumbers (n # ns) nd result ! k) d
          = lookupFreq (result ! k) d + length (filter (\<lambda>c. getDigits c nd ! k = d) (n # ns))"
    if k: "k < nd" for k d
  proof -
    have "lookupFreq (countNumbers (n # ns) nd result ! k) d
          = lookupFreq (?r ! k) d + length (filter (\<lambda>c. getDigits c nd ! k = d) ns)"
      using IH k by simp
    also have "lookupFreq (?r ! k) d
          = lookupFreq (result ! k) d + (if getDigits n nd ! k = d then 1 else 0)"
      using step k Cons.prems by simp
    finally show ?thesis
      by simp
  qed
  then show ?case
    using IH by simp
qed

text \<open>The table: one map per position, counting the candidates by their digit there.\<close>

lemma findDigitFrequencyPerPosition_props:
  "length (findDigitFrequencyPerPosition numbers nd) = nd
   \<and> (\<forall>k<nd. \<forall>d.
         lookupFreq (findDigitFrequencyPerPosition numbers nd ! k) d
           = length (filter (\<lambda>c. getDigits c nd ! k = d) numbers))"
  using countNumbers_props [of "replicate nd Map.empty" nd numbers]
  by (simp add: findDigitFrequencyPerPosition_def lookupFreq_def)

lemma evaluateGuessLoop_freq_eq:
  "i + length ds \<le> length tbl \<Longrightarrow>
   evaluateGuessLoop_freq ds i tbl acc
     = Inr (acc + (\<Sum>k<length ds. lookupFreq (tbl ! (i + k)) (ds ! k)))"
proof (induction ds arbitrary: i acc)
  case Nil
  show ?case by simp
next
  case (Cons d ds)
  have "Suc i + length ds \<le> length tbl" and "i < length tbl"
    using Cons.prems by simp_all
  then show ?case
    using Cons.IH [of "Suc i" "acc + lookupFreq (tbl ! i) d"]
    by (simp add: index_def sum.lessThan_Suc_shift del: sum.lessThan_Suc)
qed

lemma evaluateGuess_freq_eq:
  "evaluateGuess_freq g (findDigitFrequencyPerPosition candidates 5) = Inr (freqScore candidates g)"
proof -
  let ?tbl = "findDigitFrequencyPerPosition candidates 5"
  have "0 + length (getDigits g 5) \<le> length ?tbl"
    using findDigitFrequencyPerPosition_props [of candidates 5] by simp
  from evaluateGuessLoop_freq_eq [OF this, of 0]
  have "evaluateGuess_freq g ?tbl = Inr (\<Sum>k<5. lookupFreq (?tbl ! k) (getDigits g 5 ! k))"
    by (simp add: evaluateGuess_freq_def)
  also have "(\<Sum>k<5. lookupFreq (?tbl ! k) (getDigits g 5 ! k)) = freqScore candidates g"
    unfolding freqScore_def
    using findDigitFrequencyPerPosition_props [of candidates 5] by (intro sum.cong) simp_all
  finally show ?thesis .
qed

text \<open>
  The selection loop, for any table on which every evaluation succeeds with \<open>score\<close>: it
  returns the first element of \<open>best # gs\<close> whose score is maximal.
\<close>

lemma findBestGuessLoop_freq_first_max:
  assumes "\<And>g. evaluateGuess_freq g tbl = Inr (score g)"
  shows "\<exists>pre r post. best # gs = pre @ r # post
           \<and> findBestGuessLoop_freq gs tbl best (score best) = Inr r
           \<and> (\<forall>c\<in>set pre. score c < score r) \<and> (\<forall>c\<in>set post. score c \<le> score r)"
proof (induction gs arbitrary: best)
  case Nil
  have "[best] = [] @ best # []"
    by simp
  then show ?case
    by (metis empty_iff findBestGuessLoop_freq.simps(1) list.set(1))
next
  case (Cons g gs)
  show ?case
  proof (cases "score g > score best")
    case True
    obtain pre r post where
      split: "g # gs = pre @ r # post"
      and res: "findBestGuessLoop_freq gs tbl g (score g) = Inr r"
      and lt: "\<forall>c\<in>set pre. score c < score r" and le: "\<forall>c\<in>set post. score c \<le> score r"
      using Cons.IH [of g] by blast
    have "score g \<le> score r"
      using split lt by (cases pre) auto
    then have "\<forall>c\<in>set (best # pre). score c < score r"
      using True lt by auto
    moreover have "best # g # gs = (best # pre) @ r # post"
      using split by simp
    moreover have "findBestGuessLoop_freq (g # gs) tbl best (score best) = Inr r"
      using True res assms by simp
    ultimately show ?thesis
      using le by blast
  next
    case False
    obtain pre r post where
      split: "best # gs = pre @ r # post"
      and res: "findBestGuessLoop_freq gs tbl best (score best) = Inr r"
      and lt: "\<forall>c\<in>set pre. score c < score r" and le: "\<forall>c\<in>set post. score c \<le> score r"
      using Cons.IH [of best] by blast
    have run: "findBestGuessLoop_freq (g # gs) tbl best (score best) = Inr r"
      using False res assms by simp
    show ?thesis
    proof (cases pre)
      case Nil
      then have "r = best" and "post = gs"
        using split by simp_all
      then have "best # g # gs = [] @ r # (g # post)" and "\<forall>c\<in>set (g # post). score c \<le> score r"
        using False le by auto
      then show ?thesis
        using run by (metis empty_iff list.set(1))
    next
      case (Cons b pre')
      then have b: "b = best" and rest: "gs = pre' @ r # post"
        using split by simp_all
      have "score best < score r"
        using lt Cons b by simp
      then have "\<forall>c\<in>set (best # g # pre'). score c < score r"
        using False lt Cons by auto
      moreover have "best # g # gs = (best # g # pre') @ r # post"
        using rest by simp
      ultimately show ?thesis
        using run le by blast
    qed
  qed
qed

lemma selectBestGuess_freq_first_max:
  assumes "candidates \<noteq> []"
  shows "\<exists>pre best post. candidates = pre @ best # post
           \<and> selectBestGuess_freq candidates = Inr best
           \<and> (\<forall>c\<in>set pre. freqScore candidates c < freqScore candidates best)
           \<and> (\<forall>c\<in>set post. freqScore candidates c \<le> freqScore candidates best)"
proof -
  obtain c cs where cands: "candidates = c # cs"
    using assms by (cases candidates) auto
  let ?tbl = "findDigitFrequencyPerPosition candidates 5"
  have "selectBestGuess_freq candidates
        = findBestGuessLoop_freq cs ?tbl c (freqScore candidates c)"
    by (simp add: selectBestGuess_freq_def cands evaluateGuess_freq_eq)
  moreover have "\<exists>pre r post. c # cs = pre @ r # post
           \<and> findBestGuessLoop_freq cs ?tbl c (freqScore candidates c) = Inr r
           \<and> (\<forall>x\<in>set pre. freqScore candidates x < freqScore candidates r)
           \<and> (\<forall>x\<in>set post. freqScore candidates x \<le> freqScore candidates r)"
    by (rule findBestGuessLoop_freq_first_max) (rule evaluateGuess_freq_eq)
  ultimately show ?thesis
    unfolding cands [symmetric] by simp
qed

lemmas freq_eval =
  selectBestGuess_freq_def findDigitFrequencyPerPosition_def evaluateGuess_freq_def
  lookupFreq_def index_def getDigits_five

lemma freq_example:
  "selectBestGuess_freq [10007, 10037, 10039] = Inr 10037"
  by (simp add: freq_eval)

lemma freq_example_scores:
  "evaluateGuess_freq 10007 (findDigitFrequencyPerPosition [10007, 10037, 10039] 5) = Inr 12
   \<and> evaluateGuess_freq 10037 (findDigitFrequencyPerPosition [10007, 10037, 10039] 5) = Inr 13
   \<and> evaluateGuess_freq 10039 (findDigitFrequencyPerPosition [10007, 10037, 10039] 5) = Inr 12"
  by (simp add: freq_eval)

text \<open>
  Claim C5. Under the frequency heuristic, for every non-empty candidate list, the score
  the code computes for a guess is the sum over the five positions of the number of
  candidates with the guess's digit at that position, and the selector returns the first
  candidate whose score is maximal: every candidate before it scores strictly less and
  every candidate after it scores at most as much.
\<close>

theorem selectBestGuess_freq_correct:
  assumes "candidates \<noteq> []"
  shows "evaluateGuess_freq g (findDigitFrequencyPerPosition candidates 5)
           = Inr (freqScore candidates g)
    \<and> (\<exists>pre best post. candidates = pre @ best # post
           \<and> selectBestGuess_freq candidates = Inr best
           \<and> (\<forall>c\<in>set pre. freqScore candidates c < freqScore candidates best)
           \<and> (\<forall>c\<in>set post. freqScore candidates c \<le> freqScore candidates best))"
  using assms by (simp add: evaluateGuess_freq_eq selectBestGuess_freq_first_max)

theorem selectBestGuess_freq_correct_witness:
  "[10007, 10037, 10039 :: nat] \<noteq> []
   \<and> freqScore [10007, 10037, 10039] 10037 = 13
   \<and> (\<exists>pre best post. [10007, 10037, 10039] = pre @ best # post
           \<and> selectBestGuess_freq [10007, 10037, 10039] = Inr best
           \<and> (\<forall>c\<in>set pre. freqScore [10007, 10037, 10039] c < freqScore [10007, 10037, 10039] best)
           \<and> (\<forall>c\<in>set post. freqScore [10007, 10037, 10039] c \<le> freqScore [10007, 10037, 10039] best))"
proof -
  have ne: "[10007, 10037, 10039 :: nat] \<noteq> []"
    by simp
  show ?thesis
    using selectBestGuess_freq_correct [OF ne, of 10037] freq_example_scores ne by simp
qed

section \<open>Failure and membership of the selectors\<close>

text \<open>
  Claim C10, as stated, fails on the simulation variant: on the empty list
  \<open>findBestGuess\<close> does not fail, it returns 0.
\<close>

theorem findBestGuess_sim_empty_succeeds: "findBestGuess_sim [] = Inr 0"
  by (simp add: findBestGuess_sim_def)

text \<open>
  Claim C10, amended. \<open>findBestGuess\<close> has no empty-candidate-set failure of its own: on
  the empty list the simulation variant returns 0 and the frequency variant panics on
  \<open>candidates[0]\<close>. The check is made by its caller: the step of \<open>main\<close> that follows the
  filter fails with the no-more-candidates exit when and only when the list is empty, and
  on every non-empty list it succeeds with the result of \<open>findBestGuess\<close>, which is a
  member of the list, under either strategy.
\<close>

theorem findBestGuess_member:
  "findBestGuess_sim [] = Inr 0
   \<and> selectBestGuess_freq [] = Inl IndexOutOfRange
   \<and> (nextGuess_sim candidates = Inl NoMoreCandidates \<longleftrightarrow> candidates = [])
   \<and> (nextGuess_freq candidates = Inl NoMoreCandidates \<longleftrightarrow> candidates = [])
   \<and> (candidates \<noteq> [] \<longrightarrow>
        (\<exists>g. findBestGuess_sim candidates = Inr g \<and> nextGuess_sim candidates = Inr g
             \<and> g \<in> set candidates)
      \<and> (\<exists>g. selectBestGuess_freq candidates = Inr g \<and> nextGuess_freq candidates = Inr g
             \<and> g \<in> set candidates))"
proof -
  have sim: "\<exists>g. findBestGuess_sim candidates = Inr g \<and> g \<in> set candidates"
    if "candidates \<noteq> []"
    using that by (simp add: findBestGuess_sim_last)
  have freq: "\<exists>g. selectBestGuess_freq candidates = Inr g \<and> g \<in> set candidates"
    if "candidates \<noteq> []"
    using selectBestGuess_freq_first_max [OF that] by (metis in_set_conv_decomp)
  have next_sim: "nextGuess_sim candidates
        = (if candidates = [] then Inl NoMoreCandidates else findBestGuess_sim candidates)"
    by (simp add: nextGuess_sim_def)
  have next_freq: "nextGuess_freq candidates
        = (if candidates = [] then Inl NoMoreCandidates else selectBestGuess_freq candidates)"
    by (simp add: nextGuess_freq_def selectBestGuess_freq_def)
  show ?thesis
  proof (intro conjI impI)
    show "findBestGuess_sim [] = Inr 0"
      by (simp add: findBestGuess_sim_last)
    show "selectBestGuess_freq [] = Inl IndexOutOfRange"
      by (simp add: selectBestGuess_freq_def)
    show "nextGuess_sim candidates = Inl NoMoreCandidates \<longleftrightarrow> candidates = []"
      unfolding next_sim using sim by auto
    show "nextGuess_freq candidates = Inl NoMoreCandidates \<longleftrightarrow> candidates = []"
      unfolding next_freq using freq by auto
  next
    assume ne: "candidates \<noteq> []"
    show "\<exists>g. findBestGuess_sim candidates = Inr g \<and> nextGuess_sim candidates = Inr g
             \<and> g \<in> set candidates"
      unfolding next_sim using sim [OF ne] ne by auto
    show "\<exists>g. selectBestGuess_freq candidates = Inr g \<and> nextGuess_freq candidates = Inr g
             \<and> g \<in> set candidates"
      unfolding next_freq using freq [OF ne] ne by auto
  qed
qed

theorem findBestGuess_member_witness:
  "[10007, 10037, 10039 :: nat] \<noteq> []
   \<and> findBestGuess_sim [10007, 10037, 10039] = Inr 10039
   \<and> nextGuess_sim [10007, 10037, 10039] = Inr 10039
   \<and> 10039 \<in> set [10007, 10037, 10039 :: nat]
   \<and> selectBestGuess_freq [10007, 10037, 10039] = Inr 10037
   \<and> nextGuess_freq [10007, 10037, 10039] = Inr 10037
   \<and> 10037 \<in> set [10007, 10037, 10039 :: nat]"
  using findBestGuess_member [of "[10007, 10037, 10039]"] freq_example
  by (simp add: findBestGuess_sim_last)

section \<open>Properties of the prime generator\<close>

lemma is_prime_iff:
  "is_prime p \<longleftrightarrow> 2 \<le> p \<and> (\<forall>d. 2 \<le> d \<and> d < p \<longrightarrow> \<not> d dvd p)"
proof
  assume p: "is_prime p"
  then have "1 < p" and div: "\<And>d. d dvd p \<Longrightarrow> d = 1 \<or> d = p"
    by (auto simp: is_prime_def)
  then show "2 \<le> p \<and> (\<forall>d. 2 \<le> d \<and> d < p \<longrightarrow> \<not> d dvd p)"
    by fastforce
next
  assume r: "2 \<le> p \<and> (\<forall>d. 2 \<le> d \<and> d < p \<longrightarrow> \<not> d dvd p)"
  have "d = 1 \<or> d = p" if d: "d dvd p" for d
  proof -
    have "d \<le> p"
      using d r by (intro dvd_imp_le) simp_all
    moreover have "d \<noteq> 0"
      using d r by (intro notI) simp
    ultimately show ?thesis
      using d r by (metis Suc_1 Suc_leI le_neq_implies_less less_one linorder_neqE_nat not_less_eq_eq One_nat_def)
  qed
  then show "is_prime p"
    using r by (simp add: is_prime_def)
qed

lemma markMultiples_props:
  "length (markMultiples i j cs) = length cs
   \<and> (\<forall>k<length cs. markMultiples i j cs ! k = (cs ! k \<and> \<not> (j \<le> k \<and> (i + 2) dvd (k - j))))"
proof (induction i j cs rule: markMultiples.induct)
  case (1 i j cs)
  show ?case
  proof (cases "j < length cs")
    case False
    then show ?thesis
      by (subst (1 2) markMultiples.simps) auto
  next
    case True
    let ?cs' = "cs[j := False]"
    have unfold: "markMultiples i j cs = markMultiples i (j + (i + 2)) ?cs'"
      using True by (subst markMultiples.simps) simp
    note IH = "1.IH" [OF True]
    have "markMultiples i (j + (i + 2)) ?cs' ! k
            = (cs ! k \<and> \<not> (j \<le> k \<and> (i + 2) dvd (k - j)))" if k: "k < length cs" for k
    proof (cases "k = j")
      case keq: True
      then show ?thesis
        using IH k by simp
    next
      case neq: False
      have n: "markMultiples i (j + (i + 2)) ?cs' ! k
            = (?cs' ! k \<and> \<not> (j + (i + 2) \<le> k \<and> (i + 2) dvd (k - (j + (i + 2)))))"
        using IH k by auto
      have eq: "(j + (i + 2) \<le> k \<and> (i + 2) dvd (k - (j + (i + 2))))
            \<longleftrightarrow> (j \<le> k \<and> (i + 2) dvd (k - j))"
      proof
        assume a: "j + (i + 2) \<le> k \<and> (i + 2) dvd (k - (j + (i + 2)))"
        then have "k - j = (k - (j + (i + 2))) + (i + 2)"
          by linarith
        then show "j \<le> k \<and> (i + 2) dvd (k - j)"
          using a by (metis add_leD1 dvd_add_triv_right_iff)
      next
        assume a: "j \<le> k \<and> (i + 2) dvd (k - j)"
        then have "0 < k - j"
          using neq by linarith
        then have "i + 2 \<le> k - j"
          using a by (intro dvd_imp_le) simp_all
        then have le: "j + (i + 2) \<le> k"
          using a by linarith
        then have "k - j = (k - (j + (i + 2))) + (i + 2)"
          by linarith
        then have "(i + 2) dvd (k - (j + (i + 2)))"
          using a by (metis dvd_add_triv_right_iff)
        then show "j + (i + 2) \<le> k \<and> (i + 2) dvd (k - (j + (i + 2)))"
          using le by simp
      qed
      show ?thesis
        unfolding n eq using neq by simp
    qed
    then show ?thesis
      unfolding unfold using IH by simp
  qed
qed

lemma markMultiples_from_double:
  assumes "k < length cs"
  shows "markMultiples i ((i + 2) * 2 - 2) cs ! k
           = (cs ! k \<and> \<not> ((i + 2) dvd (k + 2) \<and> i + 2 < k + 2))"
proof -
  have j0: "(i + 2) * 2 - 2 = 2 * i + 2"
    by simp
  have n: "markMultiples i (2 * i + 2) cs ! k
             = (cs ! k \<and> \<not> (2 * i + 2 \<le> k \<and> (i + 2) dvd (k - (2 * i + 2))))"
    using markMultiples_props [of i "2 * i + 2" cs] assms by blast
  have eq: "(2 * i + 2 \<le> k \<and> (i + 2) dvd (k - (2 * i + 2)))
        \<longleftrightarrow> ((i + 2) dvd (k + 2) \<and> i + 2 < k + 2)"
  proof
    assume a: "2 * i + 2 \<le> k \<and> (i + 2) dvd (k - (2 * i + 2))"
    then have a1: "2 * i + 2 \<le> k" and a2: "(i + 2) dvd (k - (2 * i + 2))"
      by simp_all
    have "k + 2 = (k - (2 * i + 2)) + 2 * (i + 2)"
      using a1 by arith
    then have "(i + 2) dvd (k + 2)"
      using a2 by (metis dvd_add dvd_triv_right)
    moreover have "i + 2 < k + 2"
      using a1 by arith
    ultimately show "(i + 2) dvd (k + 2) \<and> i + 2 < k + 2"
      by simp
  next
    assume a: "(i + 2) dvd (k + 2) \<and> i + 2 < k + 2"
    then obtain m where m: "k + 2 = (i + 2) * m"
      by (auto simp: dvd_def)
    have "m \<noteq> 0"
      using m by (intro notI) simp
    moreover have "m \<noteq> 1"
      using a m by (intro notI) simp
    ultimately have "2 \<le> m"
      by arith
    then obtain m' where m': "m = m' + 2"
      by (metis add.commute le_Suc_ex)
    have "k + 2 = (i + 2) * m' + (2 * i + 2) + 2"
      using m unfolding m' by (simp add: algebra_simps)
    then have k: "k = (i + 2) * m' + (2 * i + 2)"
      by linarith
    then have "k - (2 * i + 2) = (i + 2) * m'" and "2 * i + 2 \<le> k"
      by simp_all
    then show "2 * i + 2 \<le> k \<and> (i + 2) dvd (k - (2 * i + 2))"
      by (metis dvd_triv_left)
  qed
  show ?thesis
    unfolding j0 n eq by (rule refl)
qed

lemma markMultiples_length [simp]: "length (markMultiples i j cs) = length cs"
  using markMultiples_props [of i j cs] by simp

text \<open>
  The invariant of the outer loop at index \<open>i\<close>: a cell at or after \<open>i\<close> is still
  \<open>true\<close> exactly when its number has no divisor among 2, ..., \<open>i + 1\<close>.
\<close>

lemma sieveLoop_correct:
  assumes "\<forall>k<length cs. i \<le> k \<longrightarrow> (cs ! k \<longleftrightarrow> (\<forall>d. 2 \<le> d \<and> d < i + 2 \<longrightarrow> \<not> d dvd (k + 2)))"
    and "i \<le> length cs"
  shows "sieveLoop i cs primes = primes @ filter is_prime [i + 2..<length cs + 2]"
  using assms
proof (induction i cs primes rule: sieveLoop.induct)
  case (1 i cs primes)
  show ?case
  proof (cases "i < length cs")
    case False
    then have "i = length cs"
      using "1.prems" by simp
    then show ?thesis
      by (subst sieveLoop.simps) simp
  next
    case inrange: True
    have cell: "cs ! i \<longleftrightarrow> is_prime (i + 2)"
      using "1.prems"(1) inrange unfolding is_prime_iff by simp
    have range: "[i + 2..<length cs + 2] = (i + 2) # [i + 1 + 2..<length cs + 2]"
      using inrange by (simp add: upt_conv_Cons)
    show ?thesis
    proof (cases "cs ! i")
      case True
      let ?cs' = "markMultiples i ((i + 2) * 2 - 2) cs"
      have unfold: "sieveLoop i cs primes = sieveLoop (i + 1) ?cs' (primes @ [i + 2])"
        using inrange True by (subst sieveLoop.simps) simp
      have inv: "\<forall>k<length ?cs'. i + 1 \<le> k \<longrightarrow>
                   (?cs' ! k \<longleftrightarrow> (\<forall>d. 2 \<le> d \<and> d < i + 1 + 2 \<longrightarrow> \<not> d dvd (k + 2)))"
      proof (intro allI impI)
        fix k
        assume k: "k < length ?cs'" and ik: "i + 1 \<le> k"
        then have klen: "k < length cs" and "i \<le> k" and gt: "i + 2 < k + 2"
          by simp_all
        then have old: "cs ! k \<longleftrightarrow> (\<forall>d. 2 \<le> d \<and> d < i + 2 \<longrightarrow> \<not> d dvd (k + 2))"
          using "1.prems"(1) by blast
        have "?cs' ! k \<longleftrightarrow> cs ! k \<and> \<not> (i + 2) dvd (k + 2)"
          using markMultiples_from_double [OF klen, of i] gt by blast
        also have "\<dots> \<longleftrightarrow> (\<forall>d. 2 \<le> d \<and> d < i + 1 + 2 \<longrightarrow> \<not> d dvd (k + 2))"
          unfolding old by (metis Suc_eq_plus1 add_Suc le_add2 less_Suc_eq)
        finally show "?cs' ! k \<longleftrightarrow> (\<forall>d. 2 \<le> d \<and> d < i + 1 + 2 \<longrightarrow> \<not> d dvd (k + 2))" .
      qed
      have "i + 1 \<le> length ?cs'"
        using inrange by simp
      from "1.IH"(1) [OF inrange True inv this]
      show ?thesis
        unfolding unfold range using cell True by simp
    next
      case False
      have unfold: "sieveLoop i cs primes = sieveLoop (i + 1) cs primes"
        using inrange False by (subst sieveLoop.simps) simp
      obtain d where d: "2 \<le> d" "d < i + 2" "d dvd (i + 2)"
        using "1.prems"(1) inrange False by auto
      have inv: "\<forall>k<length cs. i + 1 \<le> k \<longrightarrow>
                   (cs ! k \<longleftrightarrow> (\<forall>d. 2 \<le> d \<and> d < i + 1 + 2 \<longrightarrow> \<not> d dvd (k + 2)))"
      proof (intro allI impI)
        fix k
        assume k: "k < length cs" and ik: "i + 1 \<le> k"
        then have old: "cs ! k \<longleftrightarrow> (\<forall>d. 2 \<le> d \<and> d < i + 2 \<longrightarrow> \<not> d dvd (k + 2))"
          using "1.prems"(1) by simp
        have "\<not> (i + 2) dvd (k + 2)" if "cs ! k"
          using that old d dvd_trans by blast
        then show "cs ! k \<longleftrightarrow> (\<forall>d. 2 \<le> d \<and> d < i + 1 + 2 \<longrightarrow> \<not> d dvd (k + 2))"
          unfolding old by (metis Suc_eq_plus1 add_Suc le_add2 less_Suc_eq)
      qed
      have "i + 1 \<le> length cs"
        using inrange by simp
      from "1.IH"(2) [OF inrange False inv this]
      show ?thesis
        unfolding unfold range using cell False by simp
    qed
  qed
qed

lemma sieve_correct: "sieve m = filter is_prime [2..<m]"
proof (cases "m < 2")
  case True
  then show ?thesis
    by (simp add: sieve_def)
next
  case False
  have "sieveLoop 0 (replicate (m - 2) True) []
        = [] @ filter is_prime [0 + 2..<length (replicate (m - 2) True) + 2]"
    by (rule sieveLoop_correct) auto
  moreover have "length (replicate (m - 2) True) + 2 = m"
    using False by simp
  ultimately have "sieveLoop 0 (replicate (m - 2) True) [] = filter is_prime [2..<m]"
    by (simp only: append_Nil add_0)
  then show ?thesis
    using False by (simp only: sieve_def if_False)
qed

lemma getPrimesLoop_eq:
  "getPrimesLoop ps from result = result @ filter (\<lambda>p. from \<le> p) ps"
  by (induction ps arbitrary: result) simp_all

lemma primes_from:
  "filter (\<lambda>p. from \<le> p) (filter is_prime [2..<to]) = filter is_prime [from..<to]"
proof (rule sorted_distinct_set_unique)
  show "sorted (filter (\<lambda>p. from \<le> p) (filter is_prime [2..<to]))"
    by (intro sorted_wrt_filter) simp
  show "sorted (filter is_prime [from..<to])"
    by (intro sorted_wrt_filter) simp
  show "distinct (filter (\<lambda>p. from \<le> p) (filter is_prime [2..<to]))"
    by simp
  show "distinct (filter is_prime [from..<to])"
    by simp
  show "set (filter (\<lambda>p. from \<le> p) (filter is_prime [2..<to])) = set (filter is_prime [from..<to])"
    by (auto simp: is_prime_def)
qed

lemma getPrimes_eq: "getPrimes from to = filter is_prime [from..<to]"
  by (simp only: getPrimes_def getPrimesLoop_eq sieve_correct primes_from append_Nil)



lemma getPrimes_example: "getPrimes 10 30 = [11, 13, 17, 19, 23, 29]"
  by code_simp

text \<open>
  Claim C6. For all \<open>from\<close> and \<open>to\<close>, \<open>getPrimes from to\<close> is the list of the primes
  \<open>p\<close> with \<open>from \<le> p < to\<close> in ascending order: its elements are exactly those primes,
  it is strictly increasing and so has no duplicates, and it is empty for \<open>to < 2\<close>.
\<close>

theorem getPrimes_correct:
  "getPrimes from to = filter is_prime [from..<to]
   \<and> set (getPrimes from to) = {p. is_prime p \<and> from \<le> p \<and> p < to}
   \<and> sorted_wrt (<) (getPrimes from to) \<and> distinct (getPrimes from to)
   \<and> (to < 2 \<longrightarrow> getPrimes from to = [])"
proof (intro conjI impI)
  show "getPrimes from to = filter is_prime [from..<to]"
    by (rule getPrimes_eq)
  show "set (getPrimes from to) = {p. is_prime p \<and> from \<le> p \<and> p < to}"
    unfolding getPrimes_eq by auto
  show "sorted_wrt (<) (getPrimes from to)"
    unfolding getPrimes_eq by (intro sorted_wrt_filter) simp
  show "distinct (getPrimes from to)"
    unfolding getPrimes_eq by simp
next
  assume "to < 2"
  then have "\<forall>p\<in>set [from..<to]. \<not> is_prime p"
    by (auto simp: is_prime_def)
  then show "getPrimes from to = []"
    unfolding getPrimes_eq by (simp only: filter_False)
qed

theorem getPrimes_correct_witness:
  "(1::nat) < 2 \<and> getPrimes 5 1 = []
   \<and> getPrimes 10 30 = [11, 13, 17, 19, 23, 29]
   \<and> filter is_prime [10..<30] = [11, 13, 17, 19, 23, 29]
   \<and> is_prime 29"
proof -
  have small: "getPrimes 5 1 = []"
    using getPrimes_correct [of 5 1] by simp
  have same: "getPrimes 10 30 = filter is_prime [10..<30]"
    and elems: "set (getPrimes 10 30) = {p. is_prime p \<and> 10 \<le> p \<and> p < 30}"
    using getPrimes_correct [of 10 30] by blast+
  have "29 \<in> set (getPrimes 10 30)"
    unfolding getPrimes_example by simp
  then have "is_prime 29"
    unfolding elems by simp
  moreover have "filter is_prime [10..<30] = [11, 13, 17, 19, 23, 29]"
    unfolding same [symmetric] by (rule getPrimes_example)
  ultimately show ?thesis
    using small getPrimes_example by simp
qed

end
